theory Spec2Isabelle
  imports Main "HOL-Library.Sublist"
begin

section \<open>Texts, substrings and anchored pattern matching\<close>

text \<open>
  A document source is a Python \<open>str\<close>; it is modelled as a \<open>string\<close> (a list of
  8-bit characters). The backslash and the newline cannot be written inside a string
  literal, so they get names.
\<close>

abbreviation BSL :: char where "BSL \<equiv> CHR 0x5C"
abbreviation NL :: char where "NL \<equiv> CHR 0x0A"

text \<open>Python's \<open>sub in text\<close>.\<close>

fun contains :: "string \<Rightarrow> string \<Rightarrow> bool" where
  "contains sub [] = (sub = [])"
| "contains sub (c # s) = (prefix sub (c # s) \<or> contains sub s)"

text \<open>
  Every regular expression of the two scripts is a sequence of literals, of negated
  character classes (\<open>[^\]]*\<close>, \<open>[^}]+\<close>) and of one optional group. An anchored
  matcher takes the text at the candidate position and returns what it captured and
  the text after the match, or \<open>None\<close>.
\<close>

definition lit :: "string \<Rightarrow> string \<Rightarrow> string option" where
  "lit p s = (if prefix p s then Some (drop (length p) s) else None)"

text \<open>
  \<open>\[[^\]]*\]\<close>: an opening bracket, the longest run of characters other than the closing
  bracket (the class also takes newlines), and the closing bracket. A shorter run is
  followed by a character of the run, never by the bracket, so backtracking into the
  star cannot help.
\<close>

definition bracket_group :: "string \<Rightarrow> (string \<times> string) option" where
  "bracket_group s =
     (case s of
        [] \<Rightarrow> None
      | c # t \<Rightarrow>
          if c = CHR ''['' then
            (case dropWhile (\<lambda>x. x \<noteq> CHR '']'') t of
               [] \<Rightarrow> None
             | _ # r \<Rightarrow> Some (CHR ''['' # takeWhile (\<lambda>x. x \<noteq> CHR '']'') t @ '']'', r))
          else None)"

text \<open>\<open>\{([^}]+)\}\<close>: a brace, one or more characters other than the closing brace, the
  closing brace. Returns the captured characters and the rest.\<close>

definition braced :: "string \<Rightarrow> (string \<times> string) option" where
  "braced s =
     (case s of
        [] \<Rightarrow> None
      | c # t \<Rightarrow>
          if c = CHR ''{'' then
            (case dropWhile (\<lambda>x. x \<noteq> CHR ''}'') t of
               [] \<Rightarrow> None
             | _ # r \<Rightarrow>
                 if takeWhile (\<lambda>x. x \<noteq> CHR ''}'') t = [] then None
                 else Some (takeWhile (\<lambda>x. x \<noteq> CHR ''}'') t, r))
          else None)"

text \<open>
  \<open>(G)?K\<close>: the optional group is greedy, so the engine first tries the group followed
  by the continuation, and only when that fails the continuation alone. A group that
  did not take part is reported as the empty string (\<open>m.group(1) or ''\<close>).
\<close>

definition optional_then ::
  "(string \<Rightarrow> (string \<times> string) option) \<Rightarrow> (string \<Rightarrow> 'a option) \<Rightarrow> string \<Rightarrow> (string \<times> 'a) option" where
  "optional_then grp k s =
     (case (case grp s of None \<Rightarrow> None | Some (g, r) \<Rightarrow> map_option (Pair g) (k r)) of
        Some x \<Rightarrow> Some x
      | None \<Rightarrow> map_option (Pair []) (k s))"

text \<open>\<open>re.search\<close>: the leftmost position at which the anchored matcher succeeds;
  returns the text before the match and the matcher's result.\<close>

fun re_search :: "(string \<Rightarrow> 'm option) \<Rightarrow> string \<Rightarrow> (string \<times> 'm) option" where
  "re_search m [] = map_option (Pair []) (m [])"
| "re_search m (c # s) =
     (case m (c # s) of
        Some x \<Rightarrow> Some ([], x)
      | None \<Rightarrow> map_option (\<lambda>(b, x). (c # b, x)) (re_search m s))"

section \<open>Replacement templates of \<open>re.sub\<close>\<close>

text \<open>
  When the replacement passed to \<open>Pattern.sub\<close> is a string that holds a backslash,
  CPython compiles it with \<open>re._parser.parse_template\<close> before it searches the text,
  so a malformed template raises whether or not the pattern matches. The template is
  read token by token (a character, or a backslash with the character after it); the
  tokenizer reads one token ahead, so a lone backslash at the end raises as soon as the
  token before it is fetched.
\<close>

datatype error = re_error | IndexError

datatype titem = TLit char | TGroup nat

definition lone :: "string \<Rightarrow> bool" where
  "lone s = (s = [BSL])"

definition is_digit :: "char \<Rightarrow> bool" where
  "is_digit c = (48 \<le> (of_char c :: nat) \<and> (of_char c :: nat) \<le> 57)"

definition is_octdigit :: "char \<Rightarrow> bool" where
  "is_octdigit c = (48 \<le> (of_char c :: nat) \<and> (of_char c :: nat) \<le> 55)"

definition is_ascii_letter :: "char \<Rightarrow> bool" where
  "is_ascii_letter c =
     ((65 \<le> (of_char c :: nat) \<and> (of_char c :: nat) \<le> 90) \<or>
      (97 \<le> (of_char c :: nat) \<and> (of_char c :: nat) \<le> 122))"

definition digit_val :: "char \<Rightarrow> nat" where
  "digit_val c = of_char c - 48"

text \<open>The table \<open>ESCAPES\<close> of the template parser.\<close>

definition ESCAPES :: "char \<Rightarrow> char option" where
  "ESCAPES c =
     (if c = CHR ''a'' then Some (CHR 0x07)
      else if c = CHR ''b'' then Some (CHR 0x08)
      else if c = CHR ''f'' then Some (CHR 0x0C)
      else if c = CHR ''n'' then Some NL
      else if c = CHR ''r'' then Some (CHR 0x0D)
      else if c = CHR ''t'' then Some (CHR 0x09)
      else if c = CHR ''v'' then Some (CHR 0x0B)
      else if c = BSL then Some BSL
      else None)"

text \<open>\<open>Tokenizer.getuntil('>')\<close>: the tokens up to the terminator.\<close>

fun getuntil :: "string \<Rightarrow> error + (string \<times> string)" where
  "getuntil [] = Inl re_error"
| "getuntil [c] = (if c = CHR ''>'' then Inr ([], []) else Inl re_error)"
| "getuntil (c # d # s) =
     (if c = BSL then
        (if lone s then Inl re_error
         else case getuntil s of Inl e \<Rightarrow> Inl e | Inr (n, r) \<Rightarrow> Inr (c # d # n, r))
      else if lone (d # s) then Inl re_error
      else if c = CHR ''>'' then Inr ([], d # s)
      else case getuntil (d # s) of Inl e \<Rightarrow> Inl e | Inr (n, r) \<Rightarrow> Inr (c # n, r))"

definition is_identifier :: "string \<Rightarrow> bool" where
  "is_identifier n =
     (case n of
        [] \<Rightarrow> False
      | c # cs \<Rightarrow>
          (is_ascii_letter c \<or> c = CHR ''_'') \<and>
          list_all (\<lambda>x. is_ascii_letter x \<or> is_digit x \<or> x = CHR ''_'') cs)"

definition decimal :: "string \<Rightarrow> nat" where
  "decimal n = foldl (\<lambda>a c. 10 * a + digit_val c) 0 n"

definition tcons :: "titem \<Rightarrow> error + titem list \<Rightarrow> error + titem list" where
  "tcons x r = (case r of Inl e \<Rightarrow> Inl e | Inr xs \<Rightarrow> Inr (x # xs))"

definition addgroup :: "nat \<Rightarrow> nat \<Rightarrow> error + titem list \<Rightarrow> error + titem list" where
  "addgroup groups index r = (if index > groups then Inl re_error else tcons (TGroup index) r)"

lemma getuntil_length: "getuntil s = Inr (n, r) \<Longrightarrow> length r < length s"
  by (induction s arbitrary: n r rule: getuntil.induct)
     (auto split: if_splits sum.splits)

text \<open>
  \<open>parse_template\<close> for a pattern with \<open>groups\<close> numbered groups and no named group
  (none of the scripts' patterns names one). Names in \<open>\g<...>\<close> are judged as ASCII.
\<close>

function parse_template :: "nat \<Rightarrow> string \<Rightarrow> error + titem list" where
  "parse_template groups [] = Inr []"
| "parse_template groups [c] =
     (if c = BSL then Inl re_error else Inr [TLit c])"
| "parse_template groups (c # d # s) =
     (if c \<noteq> BSL then
        (if lone (d # s) then Inl re_error
         else tcons (TLit c) (parse_template groups (d # s)))
      else if lone s then Inl re_error
      else if d = CHR ''g'' then
        (case s of
           [] \<Rightarrow> Inl re_error
         | a # s1 \<Rightarrow>
             if a \<noteq> CHR ''<'' \<or> lone s1 then Inl re_error
             else
               (case getuntil s1 of
                  Inl e \<Rightarrow> Inl e
                | Inr (name, r) \<Rightarrow>
                    if name = [] then Inl re_error
                    else if list_all is_digit name then
                      addgroup groups (decimal name) (parse_template groups r)
                    else if is_identifier name then Inl IndexError
                    else Inl re_error))
      else if d = CHR ''0'' then
        (case s of
           [] \<Rightarrow> Inr [TLit (CHR 0x00)]
         | o1 # s1 \<Rightarrow>
             if \<not> is_octdigit o1 then tcons (TLit (CHR 0x00)) (parse_template groups s)
             else if lone s1 then Inl re_error
             else
               (case s1 of
                  [] \<Rightarrow> Inr [TLit (char_of (digit_val o1))]
                | o2 # s2 \<Rightarrow>
                    if \<not> is_octdigit o2 then
                      tcons (TLit (char_of (digit_val o1))) (parse_template groups s1)
                    else if lone s2 then Inl re_error
                    else
                      tcons (TLit (char_of ((8 * digit_val o1 + digit_val o2) mod 256)))
                        (parse_template groups s2)))
      else if is_digit d then
        (case s of
           [] \<Rightarrow> addgroup groups (digit_val d) (Inr [])
         | d2 # s1 \<Rightarrow>
             if \<not> is_digit d2 then addgroup groups (digit_val d) (parse_template groups s)
             else if lone s1 then Inl re_error
             else
               (case s1 of
                  [] \<Rightarrow> addgroup groups (10 * digit_val d + digit_val d2) (Inr [])
                | d3 # s2 \<Rightarrow>
                    if is_octdigit d \<and> is_octdigit d2 \<and> is_octdigit d3 then
                      (if lone s2 then Inl re_error
                       else if 64 * digit_val d + 8 * digit_val d2 + digit_val d3 > 255
                         then Inl re_error
                       else
                         tcons (TLit (char_of (64 * digit_val d + 8 * digit_val d2 + digit_val d3)))
                           (parse_template groups s2))
                    else
                      addgroup groups (10 * digit_val d + digit_val d2)
                        (parse_template groups s1)))
      else
        (case ESCAPES d of
           Some e \<Rightarrow> tcons (TLit e) (parse_template groups s)
         | None \<Rightarrow>
             if is_ascii_letter d then Inl re_error
             else tcons (TLit c) (tcons (TLit d) (parse_template groups s))))"
  by pat_completeness auto
termination
  by (relation "measure (\<lambda>(g, s). length s)") (auto dest: getuntil_length)

text \<open>\<open>Match.expand\<close>: literals are copied, a group reference is replaced by the text
  the group matched.\<close>

definition expand_template :: "titem list \<Rightarrow> string list \<Rightarrow> string" where
  "expand_template items gs =
     concat (map (\<lambda>i. case i of TLit c \<Rightarrow> [c]
                              | TGroup k \<Rightarrow> (if k < length gs then gs ! k else [])) items)"

text \<open>
  \<open>pattern.sub(template, text, count=1)\<close> for a template that holds a backslash. The
  matcher returns the list of groups (group 0 first) and the rest of the text.
\<close>

definition sub_template_first ::
  "(string \<Rightarrow> (string list \<times> string) option) \<Rightarrow> nat \<Rightarrow> string \<Rightarrow> string \<Rightarrow> error + string" where
  "sub_template_first m groups template text =
     (case parse_template groups template of
        Inl e \<Rightarrow> Inl e
      | Inr items \<Rightarrow>
          Inr (case re_search m text of
                 None \<Rightarrow> text
               | Some (before, gs, rest) \<Rightarrow> before @ expand_template items gs @ rest))"

section \<open>make_accessible_tex.py: the preamble patcher\<close>

definition AUTHOR_tex :: string where "AUTHOR_tex = ''Your Name''"
definition SUBJECT_tex :: string where "SUBJECT_tex = ''Your Subject''"
definition KEYWORDS_tex :: string where "KEYWORDS_tex = ''keyword1, keyword2''"

definition ALT_MARKER_tex :: string where
  "ALT_MARKER_tex = ''***!!***Guess by make_accessible_tex.py:''"

definition ACCESSIBILITY_PACKAGES :: string where
  "ACCESSIBILITY_PACKAGES =
     BSL # ''usepackage[T1]{fontenc}'' @ [NL] @
     BSL # ''usepackage{lmodern}'' @ [NL] @
     BSL # ''usepackage[utf8]{inputenc}'' @ [NL] @
     BSL # ''usepackage[english]{babel}''"

definition build_hyperref_block :: "string \<Rightarrow> string" where
  "build_hyperref_block title =
     BSL # ''usepackage[pdftex,'' @ [NL] @
     ''    pdftitle={'' @ title @ ''},'' @ [NL] @
     ''    pdfauthor={'' @ AUTHOR_tex @ ''},'' @ [NL] @
     ''    pdflang={en-US},'' @ [NL] @
     ''    pdfsubject={'' @ SUBJECT_tex @ ''},'' @ [NL] @
     ''    pdfkeywords={'' @ KEYWORDS_tex @ ''},'' @ [NL] @
     ''    colorlinks=true,'' @ [NL] @
     ''    linkcolor=blue,'' @ [NL] @
     ''    urlcolor=blue,'' @ [NL] @
     ''    citecolor=blue,'' @ [NL] @
     ''    unicode]{hyperref}'' @ [NL] @
     BSL # ''IfFileExists{pdfcomment.sty}{'' @ BSL # ''usepackage{pdfcomment}}{'' @
     BSL # ''newcommand{'' @ BSL # ''pdftooltip}[2]{#1}}''"

definition already_patched_tex :: "string \<Rightarrow> bool" where
  "already_patched_tex text =
     (contains ''fontenc'' text \<and> contains ''lmodern'' text \<and> contains ''pdftitle'' text)"

text \<open>\<open>\\usepackage(?:\[[^\]]*\])?\{NAME\}\<close> anchored at the head of the text: the
  matched text and the rest.\<close>

definition usepackage_pat :: "string \<Rightarrow> string \<Rightarrow> (string \<times> string) option" where
  "usepackage_pat name s =
     (case lit (BSL # ''usepackage'') s of
        None \<Rightarrow> None
      | Some s1 \<Rightarrow>
          (case optional_then bracket_group (lit (''{'' @ name @ ''}'')) s1 of
             None \<Rightarrow> None
           | Some (opts, r) \<Rightarrow> Some (BSL # ''usepackage'' @ opts @ ''{'' @ name @ ''}'', r)))"

text \<open>\<open>graphicx_pat\<close> has one group, the whole match; \<open>bare_href_pat\<close> has none.\<close>

definition graphicx_pat :: "string \<Rightarrow> (string list \<times> string) option" where
  "graphicx_pat s = map_option (\<lambda>(m, r). ([m, m], r)) (usepackage_pat ''graphicx'' s)"

definition bare_href_pat :: "string \<Rightarrow> (string list \<times> string) option" where
  "bare_href_pat s = map_option (\<lambda>(m, r). ([m], r)) (usepackage_pat ''hyperref'' s)"

text \<open>\<open>(\\documentclass(?:\[[^\]]*\])?\{[^}]+\})\<close>, shared by both scripts.\<close>

definition docclass_match :: "string \<Rightarrow> (string \<times> string) option" where
  "docclass_match s =
     (case lit (BSL # ''documentclass'') s of
        None \<Rightarrow> None
      | Some s1 \<Rightarrow>
          (case optional_then bracket_group braced s1 of
             None \<Rightarrow> None
           | Some (opts, cls, r) \<Rightarrow>
               Some (BSL # ''documentclass'' @ opts @ ''{'' @ cls @ ''}'', r)))"

definition docclass_pat :: "string \<Rightarrow> (string list \<times> string) option" where
  "docclass_pat s = map_option (\<lambda>(m, r). ([m, m], r)) (docclass_match s)"

lemma lit_length: "lit p s = Some r \<Longrightarrow> length r + length p = length s"
  by (auto simp: lit_def prefix_def split: if_splits)

lemma bracket_group_length: "bracket_group s = Some (g, r) \<Longrightarrow> length r < length s"
proof -
  assume a: "bracket_group s = Some (g, r)"
  then obtain t x where s: "s = CHR ''['' # t" and d: "dropWhile (\<lambda>x. x \<noteq> CHR '']'') t = x # r"
    by (auto simp: bracket_group_def split: list.splits if_splits)
  have "length (dropWhile (\<lambda>x. x \<noteq> CHR '']'') t) \<le> length t"
    by (rule length_dropWhile_le)
  with d s show ?thesis by simp
qed

lemma braced_length: "braced s = Some (f, r) \<Longrightarrow> length r < length s"
proof -
  assume a: "braced s = Some (f, r)"
  then obtain t x where s: "s = CHR ''{'' # t" and d: "dropWhile (\<lambda>x. x \<noteq> CHR ''}'') t = x # r"
    by (auto simp: braced_def split: list.splits if_splits)
  have "length (dropWhile (\<lambda>x. x \<noteq> CHR ''}'') t) \<le> length t"
    by (rule length_dropWhile_le)
  with d s show ?thesis by simp
qed

lemma usepackage_pat_length: "usepackage_pat name s = Some (m, r) \<Longrightarrow> length r < length s"
  by (auto simp: usepackage_pat_def optional_then_def
           split: option.splits prod.splits
           dest!: lit_length bracket_group_length)

text \<open>\<open>bare_href_pat.sub('', text)\<close>: every match is deleted. The replacement holds no
  backslash, so it is used literally.\<close>

function remove_bare_href :: "string \<Rightarrow> string" where
  "remove_bare_href [] = []"
| "remove_bare_href (c # s) =
     (case bare_href_pat (c # s) of
        Some (gs, r) \<Rightarrow> remove_bare_href r
      | None \<Rightarrow> c # remove_bare_href s)"
  by pat_completeness auto
termination
  by (relation "measure length")
     (auto simp: bare_href_pat_def dest: usepackage_pat_length)

text \<open>
  \<open>patch_preamble\<close> of make_accessible_tex.py. The three replacements are strings, so
  each call of \<open>sub\<close> compiles its replacement as a template; the raw pieces
  \<open>r'\n\1\n'\<close> and \<open>r'\1\n'\<close> are the characters backslash, n, backslash, 1, ...
\<close>

definition patch_preamble_tex :: "string \<Rightarrow> string \<Rightarrow> error + string" where
  "patch_preamble_tex text title =
     (let hyperref_block = build_hyperref_block title in
      if re_search graphicx_pat text \<noteq> None then
        sub_template_first graphicx_pat 1
          (ACCESSIBILITY_PACKAGES @ [BSL, CHR ''n'', BSL, CHR ''1'', BSL, CHR ''n''] @ hyperref_block)
          (remove_bare_href text)
      else if re_search bare_href_pat text \<noteq> None then
        sub_template_first bare_href_pat 0
          (ACCESSIBILITY_PACKAGES @ [NL] @ hyperref_block) text
      else
        sub_template_first docclass_pat 1
          ([BSL, CHR ''1'', BSL, CHR ''n''] @ ACCESSIBILITY_PACKAGES @ [NL] @ hyperref_block) text)"

section \<open>make_accessible.py: the preamble patcher\<close>

definition AUTHOR_shn :: string where
  "AUTHOR_shn = ''Blake Hannaford, University of Washington''"
definition SUBJECT_shn :: string where
  "SUBJECT_shn = ''ECE 474 Embedded Microcomputer Systems''"
definition KEYWORDS_shn :: string where
  "KEYWORDS_shn = ''embedded systems, microcontrollers, ECE 474''"

definition ALT_MARKER_shn :: string where
  "ALT_MARKER_shn = ''***!!***Guess by make_accessible.py:''"

text \<open>\<open>PREAMBLE_TEMPLATE.format(prefix=pfx)\<close> and \<open>HYPERREF_TEMPLATE.format(...)\<close>.\<close>

definition PREAMBLE_TEMPLATE :: "string \<Rightarrow> string" where
  "PREAMBLE_TEMPLATE pfx =
     pfx @ BSL # ''usepackage[T1]{fontenc}'' @ [NL] @
     pfx @ BSL # ''usepackage{lmodern}'' @ [NL] @
     pfx @ BSL # ''usepackage[utf8]{inputenc}'' @ [NL] @
     pfx @ BSL # ''usepackage[english]{babel}''"

definition HYPERREF_TEMPLATE :: "string \<Rightarrow> string \<Rightarrow> string" where
  "HYPERREF_TEMPLATE pfx title =
     pfx @ BSL # ''usepackage[pdftex,'' @ [NL] @
     pfx @ ''    pdftitle={'' @ title @ ''},'' @ [NL] @
     pfx @ ''    pdfauthor={'' @ AUTHOR_shn @ ''},'' @ [NL] @
     pfx @ ''    pdflang={en-US},'' @ [NL] @
     pfx @ ''    pdfsubject={'' @ SUBJECT_shn @ ''},'' @ [NL] @
     pfx @ ''    pdfkeywords={'' @ KEYWORDS_shn @ ''},'' @ [NL] @
     pfx @ ''    colorlinks=true,'' @ [NL] @
     pfx @ ''    linkcolor=blue,'' @ [NL] @
     pfx @ ''    urlcolor=blue,'' @ [NL] @
     pfx @ ''    citecolor=blue,'' @ [NL] @
     pfx @ ''    unicode]{hyperref}'' @ [NL] @
     pfx @ BSL # ''IfFileExists{pdfcomment.sty}{'' @ BSL # ''usepackage{pdfcomment}}{'' @
     BSL # ''newcommand{'' @ BSL # ''pdftooltip}[2]{#1}}''"

definition already_patched_shn :: "string \<Rightarrow> bool" where
  "already_patched_shn text =
     (contains ''fontenc'' text \<and> contains ''lmodern'' text \<and>
      contains ''pdftitle'' text \<and> contains ''pdfcomment'' text)"

text \<open>
  The pattern of \<open>patch_preamble\<close>: the graphicx line, the hyperref line and an optional
  listings line, each with the (escaped, hence literal) prefix and its newline. The
  matcher returns groups 1 and 3 and the rest.
\<close>

definition graphicx_line :: "string \<Rightarrow> string" where
  "graphicx_line pfx = pfx @ BSL # ''usepackage{graphicx}'' @ [NL]"

definition hyperref_line :: "string \<Rightarrow> string" where
  "hyperref_line pfx = pfx @ BSL # ''usepackage{hyperref}'' @ [NL]"

definition listings_line :: "string \<Rightarrow> string" where
  "listings_line pfx = pfx @ BSL # ''usepackage{listings}'' @ [NL]"

definition preamble_pat :: "string \<Rightarrow> string \<Rightarrow> (string \<times> string \<times> string) option" where
  "preamble_pat pfx s =
     (case lit (graphicx_line pfx) s of
        None \<Rightarrow> None
      | Some s1 \<Rightarrow>
          (case lit (hyperref_line pfx) s1 of
             None \<Rightarrow> None
           | Some s2 \<Rightarrow>
               (case lit (listings_line pfx) s2 of
                  Some s3 \<Rightarrow> Some (graphicx_line pfx, listings_line pfx, s3)
                | None \<Rightarrow> Some (graphicx_line pfx, [], s2))))"

definition bare_pat :: "string \<Rightarrow> string \<Rightarrow> string option" where
  "bare_pat pfx s = lit (pfx @ BSL # ''usepackage{hyperref}'') s"

text \<open>
  \<open>patch_preamble\<close> of make_accessible.py. Its replacements are functions, so no
  template is compiled. \<open>subn\<close> reports whether the first pattern matched.
\<close>

definition patch_preamble_shn :: "string \<Rightarrow> string \<Rightarrow> string \<Rightarrow> string" where
  "patch_preamble_shn text pfx title =
     (let preamble = PREAMBLE_TEMPLATE pfx;
          hyperref = HYPERREF_TEMPLATE pfx title;
          (new_text, count) =
            (case re_search (preamble_pat pfx) text of
               Some (before, g1, listings, rest) \<Rightarrow>
                 (before @ preamble @ [NL] @ g1 @ hyperref @ [NL] @ listings @ rest, 1 :: nat)
             | None \<Rightarrow> (text, 0));
          new_text =
            (if count = 0 then
               (case re_search (bare_pat pfx) text of
                  Some (before, rest) \<Rightarrow> before @ hyperref @ rest
                | None \<Rightarrow> text)
             else new_text)
      in if new_text = text then
           (case re_search docclass_match text of
              Some (before, m, rest) \<Rightarrow> before @ m @ [NL] @ preamble @ [NL] @ hyperref @ rest
            | None \<Rightarrow> text)
         else new_text)"

text \<open>\<open>re.search(r'(<[a-z]+>)\\usepackage\{hyperref\}', text)\<close>: the stream prefix.\<close>

definition is_lower_az :: "char \<Rightarrow> bool" where
  "is_lower_az c = (97 \<le> (of_char c :: nat) \<and> (of_char c :: nat) \<le> 122)"

definition prefix_pat :: "string \<Rightarrow> string option" where
  "prefix_pat s =
     (case s of
        [] \<Rightarrow> None
      | c # t \<Rightarrow>
          if c = CHR ''<'' \<and> takeWhile is_lower_az t \<noteq> [] then
            (case lit (''>'' @ BSL # ''usepackage{hyperref}'') (dropWhile is_lower_az t) of
               None \<Rightarrow> None
             | Some r \<Rightarrow> Some (''<'' @ takeWhile is_lower_az t @ ''>''))
          else None)"

definition stream_prefix :: "string \<Rightarrow> string" where
  "stream_prefix text = (case re_search prefix_pat text of Some (before, p) \<Rightarrow> p | None \<Rightarrow> [])"

text \<open>The preamble part of \<open>apply_pdf_accessibility\<close>; \<open>title\<close> stands for
  \<open>pdf_title(shn_path)\<close>.\<close>

definition preamble_step_shn :: "string \<Rightarrow> string \<Rightarrow> string" where
  "preamble_step_shn text title =
     (if already_patched_shn text then text
      else patch_preamble_shn text (stream_prefix text) title)"

section \<open>Image-inclusion directives\<close>

text \<open>\<open>INCL_RE = \\includegraphics(\[[^\]]*\])?\{([^}]+)\}\<close> (the same in both scripts),
  anchored: the options (empty when the group took no part), the file name and the rest.\<close>

definition INCL_RE :: "string \<Rightarrow> (string \<times> string \<times> string) option" where
  "INCL_RE s =
     (case lit (BSL # ''includegraphics'') s of
        None \<Rightarrow> None
      | Some s1 \<Rightarrow> optional_then bracket_group braced s1)"

text \<open>\<open>m.group(0)\<close> of a match with these groups, and the wrapper either script emits.\<close>

definition directive :: "string \<Rightarrow> string \<Rightarrow> string" where
  "directive opts fname = BSL # ''includegraphics'' @ opts @ ''{'' @ fname @ ''}''"

definition TOOLTIP :: string where
  "TOOLTIP = BSL # ''pdftooltip{''"

definition wrapper :: "string \<Rightarrow> string \<Rightarrow> string \<Rightarrow> string" where
  "wrapper opts fname alt = TOOLTIP @ directive opts fname @ ''}{'' @ alt @ ''}''"

lemma INCL_RE_length: "INCL_RE s = Some (opts, fname, r) \<Longrightarrow> length r < length s"
  by (auto simp: INCL_RE_def optional_then_def
           split: option.splits prod.splits
           dest!: lit_length bracket_group_length braced_length)

subsection \<open>File names: \<open>pathlib\<close> on a POSIX system\<close>

text \<open>\<open>str.split(sep)\<close> for a one-character separator.\<close>

fun split_on :: "char \<Rightarrow> string \<Rightarrow> string list" where
  "split_on sep [] = [[]]"
| "split_on sep (c # s) =
     (case split_on sep s of
        [] \<Rightarrow> [[c]]
      | x # xs \<Rightarrow> if c = sep then [] # x # xs else (c # x) # xs)"

text \<open>\<open>Path(f).name\<close>: the last component that is neither empty nor a single dot, or
  the empty string when there is none.\<close>

definition path_name :: "string \<Rightarrow> string" where
  "path_name f =
     (case rev (filter (\<lambda>x. x \<noteq> [] \<and> x \<noteq> ''.'') (split_on CHR ''/'' f)) of
        [] \<Rightarrow> []
      | x # _ \<Rightarrow> x)"

text \<open>\<open>str.rfind\<close>: the highest index at which \<open>sub\<close> starts, \<open>None\<close> for \<open>-1\<close>.\<close>

fun rfind :: "string \<Rightarrow> string \<Rightarrow> nat option" where
  "rfind sub [] = (if sub = [] then Some 0 else None)"
| "rfind sub (c # s) =
     (case rfind sub s of
        Some i \<Rightarrow> Some (Suc i)
      | None \<Rightarrow> if prefix sub (c # s) then Some 0 else None)"

text \<open>\<open>Path(f).stem\<close>: the name up to its last dot, unless that dot is the first or
  the last character of the name.\<close>

definition path_stem :: "string \<Rightarrow> string" where
  "path_stem f =
     (let name = path_name f in
      case rfind ''.'' name of
        None \<Rightarrow> name
      | Some i \<Rightarrow> if 0 < i \<and> i + 1 < length name then take i name else name)"

text \<open>\<open>str.lower\<close> and \<open>str.strip\<close> on code points below 256.\<close>

definition lower_char :: "char \<Rightarrow> char" where
  "lower_char c =
     (let n = (of_char c :: nat) in
      if (65 \<le> n \<and> n \<le> 90) \<or> (192 \<le> n \<and> n \<le> 222 \<and> n \<noteq> 215) then char_of (n + 32) else c)"

definition lower :: "string \<Rightarrow> string" where
  "lower s = map lower_char s"

definition is_space :: "char \<Rightarrow> bool" where
  "is_space c =
     (let n = (of_char c :: nat) in
      (9 \<le> n \<and> n \<le> 13) \<or> (28 \<le> n \<and> n \<le> 32) \<or> n = 133 \<or> n = 160)"

definition strip :: "string \<Rightarrow> string" where
  "strip s = rev (dropWhile is_space (rev (dropWhile is_space s)))"

subsection \<open>make_accessible_tex.py: \<open>guess_alt\<close>\<close>

definition known_tex :: "string \<Rightarrow> string option" where
  "known_tex name =
     (if name = ''traystack'' then
        Some ''Photo of a spring-loaded cafeteria tray stack, analogy for the stack data structure''
      else if name = ''pathfinder'' then Some ''NASA Mars Pathfinder rover''
      else if name = ''rs232_serialbits'' then Some ''RS-232 serial bit frame timing diagram''
      else if name = ''rs232_db25pinout'' then Some ''DB-25 connector pinout for RS-232''
      else None)"

text \<open>\<open>re.sub(r'\d{4,}', '', s)\<close>: every maximal run of four or more digits is deleted;
  a shorter run holds no match.\<close>

function strip_long_numbers :: "string \<Rightarrow> string" where
  "strip_long_numbers [] = []"
| "strip_long_numbers (c # s) =
     (if is_digit c then
        (let run = takeWhile is_digit (c # s); r = dropWhile is_digit (c # s) in
         if length run \<ge> 4 then strip_long_numbers r else run @ strip_long_numbers r)
      else c # strip_long_numbers s)"
  by pat_completeness auto
termination
proof (relation "measure length")
  show "wf (measure length)" by simp
next
  fix c s x xa
  assume "is_digit c" and "xa = dropWhile is_digit (c # s)"
  then show "(xa, c # s) \<in> measure length"
    using length_dropWhile_le [of is_digit s] by simp
next
  fix c s x xa
  assume "is_digit c" and "xa = dropWhile is_digit (c # s)"
  then show "(xa, c # s) \<in> measure length"
    using length_dropWhile_le [of is_digit s] by simp
next
  fix c s
  show "(s, c # s) \<in> measure length" by simp
qed

definition guess_alt_tex :: "string \<Rightarrow> string" where
  "guess_alt_tex filename =
     (let name = lower (path_stem filename) in
      case known_tex name of
        Some d \<Rightarrow> d
      | None \<Rightarrow>
          (let readable =
                 strip (strip_long_numbers
                   (map (\<lambda>c. if c = CHR ''-'' \<or> c = CHR ''_'' then CHR '' '' else c) name))
           in if readable \<noteq> [] then ''Figure: '' @ readable
              else ''Figure ('' @ path_name filename @ '')''))"

subsection \<open>make_accessible_tex.py: \<open>is_already_wrapped\<close> and \<open>wrap_images\<close>\<close>

text \<open>The loop \<open>for ch in ...: if ch == '{': depth += 1 elif ch == '}': depth -= 1\<close>.\<close>

definition brace_depth :: "int \<Rightarrow> string \<Rightarrow> int" where
  "brace_depth d s =
     foldl (\<lambda>depth ch. if ch = CHR ''{'' then depth + 1
                        else if ch = CHR ''}'' then depth - 1 else depth) d s"

definition is_already_wrapped :: "string \<Rightarrow> nat \<Rightarrow> bool" where
  "is_already_wrapped text match_start =
     (let preceding = take match_start text in
      case rfind TOOLTIP preceding of
        None \<Rightarrow> False
      | Some last_tt \<Rightarrow> brace_depth 0 (drop last_tt (take match_start text)) > 0)"

subsection \<open>The scan shared by both \<open>wrap_images\<close>\<close>

text \<open>
  Both scripts visit the matches of \<open>INCL_RE\<close> from left to right, copy the text between
  them, and put in place of each match either the match itself (when their test says
  it is already wrapped) or the wrapper with the marked guess; the scan resumes after
  the match. make_accessible_tex.py writes this as a loop over \<open>INCL_RE.finditer(text)\<close>
  that appends \<open>text[prev:m.start()]\<close> and the replacement to a list; make_accessible.py
  writes it as \<open>INCL_RE.sub(replacer, text)\<close>. Here \<open>pre\<close> is the text already scanned: the
  whole text is \<open>pre @ s\<close>, and a match at the head of \<open>s\<close> starts at \<open>length pre\<close>.
  \<open>wrapped\<close> is the script's test on the whole text and the start of the match, and
  \<open>alt\<close> its alternative text for a file name.
\<close>

function wrap_scan ::
  "(string \<Rightarrow> nat \<Rightarrow> bool) \<Rightarrow> (string \<Rightarrow> string) \<Rightarrow> string \<Rightarrow> string \<Rightarrow> string" where
  "wrap_scan wrapped alt pre [] = []"
| "wrap_scan wrapped alt pre (c # s) =
     (case INCL_RE (c # s) of
        None \<Rightarrow> c # wrap_scan wrapped alt (pre @ [c]) s
      | Some (opts, fname, r) \<Rightarrow>
          (if wrapped (pre @ c # s) (length pre) then directive opts fname
           else wrapper opts fname (alt fname))
          @ wrap_scan wrapped alt (pre @ directive opts fname) r)"
  by pat_completeness auto
termination
  by (relation "measure (\<lambda>(wrapped, alt, pre, s). length s)") (auto dest: INCL_RE_length)

text \<open>\<open>alt = f'{ALT_MARKER} {guess_alt(fname)}'\<close>.\<close>

definition alt_tex :: "string \<Rightarrow> string" where
  "alt_tex fname = ALT_MARKER_tex @ '' '' @ guess_alt_tex fname"

definition wrap_images_tex :: "string \<Rightarrow> string" where
  "wrap_images_tex text = wrap_scan is_already_wrapped alt_tex [] text"

text \<open>The image-inclusion directives of a text, as \<open>INCL_RE.finditer\<close> finds them: the
  options and the file name of each match, in order.\<close>

function directives :: "string \<Rightarrow> (string \<times> string) list" where
  "directives [] = []"
| "directives (c # s) =
     (case INCL_RE (c # s) of
        None \<Rightarrow> directives s
      | Some (opts, fname, r) \<Rightarrow> (opts, fname) # directives r)"
  by pat_completeness auto
termination
  by (relation "measure length") (auto dest: INCL_RE_length)

subsection \<open>make_accessible.py: \<open>guess_alt\<close> and \<open>wrap_images\<close>\<close>

definition known_shn :: "string \<Rightarrow> string option" where
  "known_shn name =
     (if name = ''redditfollowadviceuw'' then
        Some ''Screenshot of a Reddit post advising UW students to follow course advice''
      else if name = ''traystack'' then
        Some ''Photo of a spring-loaded cafeteria tray stack, analogy for the hardware stack data structure''
      else if name = ''pathfinder'' then
        Some ''Photo of the NASA Mars Pathfinder rover, illustrating the priority inversion bug in the 1997 Mars mission''
      else if name = ''rs232_serialbits'' then
        Some ''Timing diagram of an RS-232 serial bit frame showing start bit, data bits, parity, and stop bits''
      else if name = ''rs232_db25pinout'' then
        Some ''DB-25 connector pinout diagram for RS-232 serial interface''
      else if name = ''includes_multi_protos'' then
        Some ''Diagram showing a single .h header providing function prototypes to multiple .c source files''
      else if name = ''c-building'' then
        Some ''Flowchart of the C build process: preprocessor, compiler, linker''
      else None)"

definition folder_guesses :: "string \<Rightarrow> string" where
  "folder_guesses folder =
     (if folder = ''hwio_figs'' then ''Hardware I/O diagram''
      else if folder = ''usb_figs'' then ''USB architecture diagram''
      else if folder = ''sched_figs'' then ''Scheduler diagram''
      else if folder = ''intro_figs'' then ''Introduction diagram''
      else if folder = ''cprog_figs'' then ''C programming diagram''
      else if folder = ''misc_figs'' then ''Diagram''
      else if folder = ''Serial_figs'' then ''Serial communication diagram''
      else ''Diagram'')"

text \<open>\<open>parts = filename.replace('\\', '/').split('/')\<close>; with two parts or more the
  folder is \<open>parts[-2]\<close>.\<close>

definition guess_alt_shn :: "string \<Rightarrow> string" where
  "guess_alt_shn filename =
     (let name = lower (path_stem filename) in
      case known_shn name of
        Some d \<Rightarrow> d
      | None \<Rightarrow>
          (case rev (split_on CHR ''/'' (map (\<lambda>c. if c = BSL then CHR ''/'' else c) filename)) of
             _ # folder # _ \<Rightarrow> folder_guesses folder @ '' ('' @ path_name filename @ '')''
           | _ \<Rightarrow> ''Figure ('' @ path_name filename @ '')''))"

definition alt_shn :: "string \<Rightarrow> string" where
  "alt_shn fname = ALT_MARKER_shn @ '' '' @ guess_alt_shn fname"

text \<open>
  The second loop of \<open>replacer\<close>: from \<open>pos\<close>, with the depth of the wrapper's first
  argument, to the position after the brace that closes it, or to the end of the text.
\<close>

fun closing_pos :: "int \<Rightarrow> nat \<Rightarrow> string \<Rightarrow> nat" where
  "closing_pos depth pos [] = pos"
| "closing_pos depth pos (c # s) =
     (if depth > 0 then
        closing_pos (if c = CHR ''{'' then depth + 1
                     else if c = CHR ''}'' then depth - 1 else depth) (pos + 1) s
      else pos)"

text \<open>
  The test of \<open>replacer\<close>. Its first loop over \<open>snippet\<close> only evaluates
  \<open>snippet.index(ch)\<close> for characters of \<open>snippet\<close> (which cannot raise) and \<open>pass\<close>; it
  changes nothing that is read afterwards (\<open>depth\<close> is set again), so it has no
  counterpart here.
\<close>

definition inside_tooltip :: "string \<Rightarrow> nat \<Rightarrow> bool" where
  "inside_tooltip text start =
     (let preceding = take start text in
      if contains TOOLTIP preceding then
        (case rfind TOOLTIP preceding of
           None \<Rightarrow> False
         | Some last_tt \<Rightarrow>
             (let tt_inner_end = last_tt + length TOOLTIP;
                  pos = closing_pos 1 tt_inner_end (drop tt_inner_end text)
              in last_tt < start \<and> start < pos))
      else False)"

definition wrap_images_shn :: "string \<Rightarrow> string" where
  "wrap_images_shn text = wrap_scan inside_tooltip alt_shn [] text"

subsection \<open>\<open>extract_alt_map\<close>\<close>

text \<open>
  \<open>\\pdftooltip\{\\includegraphics(?:\[[^\]]*\])?\{([^}]+)\}\}\{([^}]+)\}\<close>, anchored: the
  file name, the alternative text and the rest. Everything after the optional group is
  its continuation.
\<close>

definition tooltip_pat :: "string \<Rightarrow> (string \<times> string \<times> string) option" where
  "tooltip_pat s =
     (case lit (TOOLTIP @ BSL # ''includegraphics'') s of
        None \<Rightarrow> None
      | Some s1 \<Rightarrow>
          map_option snd
            (optional_then bracket_group
               (\<lambda>s2. case braced s2 of
                        None \<Rightarrow> None
                      | Some (fname, r1) \<Rightarrow>
                          (case lit ''}'' r1 of
                             None \<Rightarrow> None
                           | Some r2 \<Rightarrow>
                               (case braced r2 of
                                  None \<Rightarrow> None
                                | Some (alt, r3) \<Rightarrow> Some (fname, alt, r3)))) s1))"

lemma tooltip_pat_length: "tooltip_pat s = Some (fname, alt, r) \<Longrightarrow> length r < length s"
  by (auto simp: tooltip_pat_def optional_then_def
           split: option.splits prod.splits
           dest!: lit_length bracket_group_length braced_length)

text \<open>The matches of \<open>pat.finditer(tex_text)\<close>: file name and alternative text as captured.\<close>

function tooltip_matches :: "string \<Rightarrow> (string \<times> string) list" where
  "tooltip_matches [] = []"
| "tooltip_matches (c # s) =
     (case tooltip_pat (c # s) of
        None \<Rightarrow> tooltip_matches s
      | Some (fname, alt, r) \<Rightarrow> (fname, alt) # tooltip_matches r)"
  by pat_completeness auto
termination
  by (relation "measure length") (auto dest: tooltip_pat_length)

text \<open>The dictionary is filled in the order of the matches, so a later match with the
  same base name overwrites an earlier one.\<close>

definition extract_alt_map_tex :: "string \<Rightarrow> (string \<rightharpoonup> string)" where
  "extract_alt_map_tex tex_text =
     foldl (\<lambda>alt_map (fname, alt). alt_map(path_name fname \<mapsto> strip alt))
       Map.empty (tooltip_matches tex_text)"

text \<open>\<open>str.replace(r'*\#*\#', '*#*#')\<close>: the occurrences are replaced from left to
  right, without overlap.\<close>

fun unescape_hashes :: "string \<Rightarrow> string" where
  "unescape_hashes (a # b # c # d # e # f # s) =
     (if [a, b, c, d, e, f] = [CHR ''*'', BSL, CHR ''#'', CHR ''*'', BSL, CHR ''#'']
      then ''*#*#'' @ unescape_hashes s
      else a # unescape_hashes (b # c # d # e # f # s))"
| "unescape_hashes s = s"

definition extract_alt_map_shn :: "string \<Rightarrow> (string \<rightharpoonup> string)" where
  "extract_alt_map_shn tex_text =
     foldl (\<lambda>alt_map (fname, alt). alt_map(path_name fname \<mapsto> strip (unescape_hashes alt)))
       Map.empty (tooltip_matches tex_text)"

subsection \<open>\<open>preprocess_for_pandoc\<close>: the unwrapping step\<close>




subsection \<open>make_accessible_tex.py: the per-document step and the batch loop\<close>

text \<open>
  \<open>apply_pdf_accessibility\<close> on the text of the file; \<open>title\<close> stands for
  \<open>get_title(tex_path, text)\<close>. The result is the text written back. Nothing in the
  function or in \<open>main\<close> catches an exception, so \<open>Inl\<close> leaves the loop over the files.
\<close>

definition apply_pdf_accessibility_tex :: "string \<Rightarrow> string \<Rightarrow> error + string" where
  "apply_pdf_accessibility_tex text title =
     (if already_patched_tex text then Inr (wrap_images_tex text)
      else case patch_preamble_tex text title of
             Inl e \<Rightarrow> Inl e
           | Inr new_text \<Rightarrow> Inr (wrap_images_tex new_text))"

fun main_tex :: "(string \<times> string) list \<Rightarrow> error + string list" where
  "main_tex [] = Inr []"
| "main_tex ((text, title) # fs) =
     (case apply_pdf_accessibility_tex text title of
        Inl e \<Rightarrow> Inl e
      | Inr new_text \<Rightarrow>
          (case main_tex fs of Inl e \<Rightarrow> Inl e | Inr out \<Rightarrow> Inr (new_text # out)))"

subsection \<open>make_accessible.py: the per-document step\<close>

text \<open>\<open>apply_pdf_accessibility\<close> of make_accessible.py: the text written back.\<close>

definition apply_pdf_accessibility_shn :: "string \<Rightarrow> string \<Rightarrow> string" where
  "apply_pdf_accessibility_shn text title = wrap_images_shn (preamble_step_shn text title)"

subsection \<open>Sample documents\<close>

text \<open>A class declaration followed by a bare hyperref declaration and nothing else.\<close>

definition doc_bare_hyperref :: string where
  "doc_bare_hyperref =
     BSL # ''documentclass{article}'' @ [NL] @ BSL # ''usepackage{hyperref}'' @ [NL]"

text \<open>A graphicx and a bare hyperref declaration with another package between them.\<close>

definition doc_separated :: string where
  "doc_separated =
     BSL # ''documentclass{article}'' @ [NL] @ BSL # ''usepackage{graphicx}'' @ [NL] @
     BSL # ''usepackage{amsmath}'' @ [NL] @ BSL # ''usepackage{hyperref}'' @ [NL]"

text \<open>A class declaration and no package at all.\<close>

definition doc_class_only :: string where
  "doc_class_only = BSL # ''documentclass{article}'' @ [NL] @ BSL # ''begin{document}''"


text \<open>A hand-wrapped image, and after it a second image inside \<open>\centerline{...}\<close>.\<close>

definition doc_after_wrapper :: string where
  "doc_after_wrapper =
     wrapper [] ''a.png'' ''A tray'' @ [NL] @
     BSL # ''centerline{'' @ directive [] ''b.png'' @ ''}''"

text \<open>A directive whose file name holds a wrapper token, a brace and a directory.\<close>

definition doc_tooltip_in_name :: string where
  "doc_tooltip_in_name =
     BSL # ''includegraphics{'' @ BSL # ''pdftooltip{{/x}'' @ BSL # ''includegraphics{b}''"

text \<open>A directive whose options hold a wrapper token, followed by a plain directive.\<close>

definition doc_tooltip_in_options :: string where
  "doc_tooltip_in_options =
     BSL # ''includegraphics['' @ BSL # ''pdftooltip{]{x}'' @ BSL # ''includegraphics{b}''"

text \<open>A directive whose options close two braces and whose file name, and so the guess
  made from it, reads as the beginning of a directive.\<close>

definition doc_directive_in_name :: string where
  "doc_directive_in_name =
     BSL # ''includegraphics[}}]{'' @ BSL # ''includegraphics{x}''"

text \<open>A closed wrapper around text, a directive whose file name holds the wrapper token in
  capitals (the guess of make_accessible_tex.py is in lower case), and a plain directive.\<close>

definition doc_capital_tooltip :: string where
  "doc_capital_tooltip =
     BSL # ''pdftooltip{x}{y}'' @ BSL # ''includegraphics{'' @ BSL # ''PDFTOOLTIP{Q}'' @
     BSL # ''includegraphics{b}''"

text \<open>
  A wrapper written by hand; an image inside \<open>\centerline{...}\<close> whose options hold a
  command and braces and whose path begins with a macro; an image whose path is written
  with a backslash.
\<close>

definition doc_paths :: string where
  "doc_paths =
     wrapper [] ''logo.png'' ''The logo'' @ [NL] @
     BSL # ''centerline{'' @
       directive (''[width='' @ BSL # ''textwidth,trim={0 0 1cm 0}]'') (BSL # ''figdir/a.png'') @
     ''}'' @ [NL] @
     directive [] (''hwio_figs'' @ BSL # ''fig1.png'')"

text \<open>A closed wrapper around text, then an image inside \<open>\centerline{...}\<close> and a second
  image; neither image stands inside a wrapper.\<close>

definition doc_text_tooltip :: string where
  "doc_text_tooltip =
     BSL # ''pdftooltip{Fig. 1}{A tip}'' @ [NL] @
     BSL # ''centerline{'' @ directive [] ''a.png'' @ ''}'' @ [NL] @
     directive [] ''b.png''"

section \<open>Notions used in the proofs\<close>

text \<open>
  What a match of \<open>INCL_RE\<close> captures: options that are empty or one bracket group without
  an inner closing bracket, and a non-empty file name without a closing brace.
  \<open>special\<close> are the characters that delimit the patterns; \<open>alt_keeps\<close> says that an
  alternative text holds one of them only if the file name does. \<open>braced_ok\<close> and
  \<open>after_bracket\<close> say when the tail of \<open>INCL_RE\<close> (the braces; the rest of the bracket
  group and then the braces) matches.
\<close>

definition valid_opts :: "string \<Rightarrow> bool" where
  "valid_opts opts = (opts = [] \<or> (\<exists>u. opts = CHR ''['' # u @ '']'' \<and> CHR '']'' \<notin> set u))"

definition valid_fname :: "string \<Rightarrow> bool" where
  "valid_fname fname = (fname \<noteq> [] \<and> CHR ''}'' \<notin> set fname)"

definition special :: "char \<Rightarrow> bool" where
  "special x = (x = BSL \<or> x = CHR ''}'' \<or> x = CHR '']'')"

definition alt_keeps :: "(string \<Rightarrow> string) \<Rightarrow> bool" where
  "alt_keeps alt = (\<forall>f x. special x \<longrightarrow> x \<in> set (alt f) \<longrightarrow> x \<in> set f)"

fun braced_ok :: "string \<Rightarrow> bool" where
  "braced_ok (c # d # t) = (c = CHR ''{'' \<and> d \<noteq> CHR ''}'' \<and> CHR ''}'' \<in> set t)"
| "braced_ok _ = False"

definition after_bracket :: "string \<Rightarrow> bool" where
  "after_bracket t = (case dropWhile (\<lambda>x. x \<noteq> CHR '']'') t of [] \<Rightarrow> False | _ # r \<Rightarrow> braced_ok r)"

text \<open>
  For the wrapped tests: \<open>last_from pre\<close> is the text from the last wrapper token of
  \<open>pre\<close> on; \<open>clean_cut a b\<close> is a sufficient condition for no token to start in \<open>a\<close>
  and end in \<open>b\<close>; \<open>wp_tex\<close> and \<open>wp_shn\<close> are the two tests as functions of the text
  before the match alone; \<open>stays_open d s\<close> says that a depth starting at \<open>d\<close> never
  reaches zero along \<open>s\<close>. \<open>INCLUDE\<close> is the literal with which \<open>INCL_RE\<close> begins.
  \<open>tame\<close> (a directive holds no wrapper token) and \<open>plain_alt\<close> (an alternative text holds
  neither a wrapper token nor the beginning of a directive) are the hypotheses under
  which wrapping twice is wrapping once.
\<close>

definition last_from :: "string \<Rightarrow> string option" where
  "last_from pre = map_option (\<lambda>i. drop i pre) (rfind TOOLTIP pre)"

definition clean_cut :: "string \<Rightarrow> string \<Rightarrow> bool" where
  "clean_cut a b =
     (b = [] \<or> hd b \<notin> set (tl TOOLTIP) \<or> a = [] \<or> last a \<notin> set (butlast TOOLTIP))"

definition bstep :: "int \<Rightarrow> char \<Rightarrow> int" where
  "bstep d ch = (if ch = CHR ''{'' then d + 1 else if ch = CHR ''}'' then d - 1 else d)"

definition wp_tex :: "string \<Rightarrow> bool" where
  "wp_tex pre = (case last_from pre of None \<Rightarrow> False | Some t \<Rightarrow> brace_depth 0 t > 0)"

fun stays_open :: "int \<Rightarrow> string \<Rightarrow> bool" where
  "stays_open d [] = (d > 0)"
| "stays_open d (c # s) = (d > 0 \<and> stays_open (bstep d c) s)"

definition wp_shn :: "string \<Rightarrow> bool" where
  "wp_shn pre =
     (case last_from pre of None \<Rightarrow> False | Some t \<Rightarrow> stays_open 1 (drop (length TOOLTIP) t))"

definition INCLUDE :: string where
  "INCLUDE = BSL # ''includegraphics''"

definition tame :: "string \<Rightarrow> string \<Rightarrow> bool" where
  "tame opts fname = (\<not> contains TOOLTIP opts \<and> \<not> contains TOOLTIP fname)"

definition plain_alt :: "string \<Rightarrow> bool" where
  "plain_alt alt = (\<not> contains TOOLTIP alt \<and> \<not> contains INCLUDE alt)"

section \<open>Properties of the preamble patchers\<close>

subsection \<open>make_accessible_tex.py: every replacement template is malformed\<close>

lemma parse_template_accessibility:
  "parse_template g (ACCESSIBILITY_PACKAGES @ t) = Inl re_error"
  by (simp add: ACCESSIBILITY_PACKAGES_def lone_def is_digit_def ESCAPES_def is_ascii_letter_def)

lemma parse_template_docclass:
  "parse_template 1 ([BSL, CHR ''1'', BSL, CHR ''n''] @ ACCESSIBILITY_PACKAGES @ t) = Inl re_error"
  by (simp add: ACCESSIBILITY_PACKAGES_def lone_def is_digit_def is_octdigit_def ESCAPES_def
        is_ascii_letter_def digit_val_def addgroup_def tcons_def)

lemma patch_preamble_tex_raises: "patch_preamble_tex text title = Inl re_error"
  using parse_template_accessibility [of 1] parse_template_accessibility [of 0]
    parse_template_docclass
  by (simp add: patch_preamble_tex_def sub_template_first_def Let_def)

lemma wrap_images_tex_plain:
  "wrap_images_tex ''fontenc lmodern pdftitle'' = ''fontenc lmodern pdftitle''"
  by (simp add: wrap_images_tex_def INCL_RE_def lit_def)

text \<open>
  C3 (per-document exception isolation). The claim says that the preamble-patch step
  returns a result or reports the failure on every source text, so that no exception
  leaves the per-document step. In make_accessible_tex.py the replacement of each of the
  three \<open>sub\<close> calls starts with, or holds, \<open>\usepackage\<close>, and \<open>\u\<close> is a bad escape of
  a replacement template: \<open>patch_preamble\<close> raises \<open>re.error\<close> on every text and title.
  Nothing catches it, so a document that is not yet patched aborts the batch: the
  second document of the list below is never processed, although alone it goes through.
\<close>

theorem C3_tex_patch_raises_and_aborts_batch:
  "patch_preamble_tex text title = Inl re_error \<and>
   apply_pdf_accessibility_tex (BSL # ''documentclass{article}'') ''T'' = Inl re_error \<and>
   main_tex [(BSL # ''documentclass{article}'', ''T''), (''fontenc lmodern pdftitle'', ''U'')]
     = Inl re_error \<and>
   main_tex [(''fontenc lmodern pdftitle'', ''U'')] = Inr [''fontenc lmodern pdftitle'']"
proof -
  have a: "\<not> already_patched_tex (BSL # ''documentclass{article}'')"
    by (simp add: already_patched_tex_def)
  have b: "already_patched_tex ''fontenc lmodern pdftitle''"
    by (simp add: already_patched_tex_def)
  show ?thesis
    using a b wrap_images_tex_plain
    by (simp add: apply_pdf_accessibility_tex_def patch_preamble_tex_raises)
qed

subsection \<open>make_accessible.py: what the three strategies do\<close>

lemma re_search_None_iff: "re_search m s = None \<longleftrightarrow> (\<forall>t. suffix t s \<longrightarrow> m t = None)"
  by (induction s) (auto simp: suffix_Cons split: option.splits)

lemma contains_sublist: "contains sub s \<longleftrightarrow> sublist sub s"
  by (induction s) (auto simp: sublist_Cons_right)

lemma sublist_witness: "text = ps @ xs @ ss \<Longrightarrow> sublist xs text"
  unfolding sublist_def by blast

lemma bare_pat_None:
  assumes "\<not> contains (BSL # ''usepackage{hyperref}'') text"
  shows "re_search (bare_pat pfx) text = None"
proof -
  have "bare_pat pfx t = None" if "suffix t text" for t
  proof (rule ccontr)
    assume "bare_pat pfx t \<noteq> None"
    then have "prefix (pfx @ BSL # ''usepackage{hyperref}'') t"
      by (auto simp: bare_pat_def lit_def split: if_splits)
    then obtain r where t: "t = (pfx @ BSL # ''usepackage{hyperref}'') @ r"
      by (auto simp: prefix_def)
    from that obtain q where q: "text = q @ t" by (auto simp: suffix_def)
    have "text = (q @ pfx) @ (BSL # ''usepackage{hyperref}'') @ r"
      using t q by simp
    then have "sublist (BSL # ''usepackage{hyperref}'') text"
      by (rule sublist_witness)
    with assms show False by (simp add: contains_sublist)
  qed
  then show ?thesis by (simp add: re_search_None_iff)
qed

lemma preamble_pat_None:
  assumes "\<not> contains (BSL # ''usepackage{hyperref}'') text"
  shows "re_search (preamble_pat pfx) text = None"
proof -
  have "preamble_pat pfx t = None" if "suffix t text" for t
  proof (rule ccontr)
    assume "preamble_pat pfx t \<noteq> None"
    then obtain s1 where s1: "lit (graphicx_line pfx) t = Some s1"
       and "lit (hyperref_line pfx) s1 \<noteq> None"
      by (auto simp: preamble_pat_def split: option.splits)
    then obtain r where t: "t = graphicx_line pfx @ hyperref_line pfx @ r"
      by (auto simp: lit_def prefix_def split: if_splits)
    from that obtain q where q: "text = q @ t" by (auto simp: suffix_def)
    have "text = (q @ graphicx_line pfx @ pfx) @ (BSL # ''usepackage{hyperref}'') @ ([NL] @ r)"
      using t q by (simp add: hyperref_line_def)
    then have "sublist (BSL # ''usepackage{hyperref}'') text"
      by (rule sublist_witness)
    with assms show False by (simp add: contains_sublist)
  qed
  then show ?thesis by (simp add: re_search_None_iff)
qed

text \<open>
  C10 (no anchor at all, make_accessible.py). When the text holds no bare hyperref
  declaration (with or without the stream prefix) and the class-declaration pattern
  matches nowhere, none of the three strategies finds its anchor: \<open>patch_preamble\<close>
  returns the text as it is, whatever the prefix and the title, and a text that was not
  already patched is still not. A graphicx declaration alone is no anchor for this
  script, so the theorem does not need its absence.
\<close>

theorem C10_shn_no_anchor_unchanged:
  assumes "\<not> contains (BSL # ''usepackage{hyperref}'') text"
      and "re_search docclass_match text = None"
      and "\<not> already_patched_shn text"
  shows "patch_preamble_shn text pfx title = text \<and>
         \<not> already_patched_shn (patch_preamble_shn text pfx title)"
  using assms bare_pat_None [OF assms(1)] preamble_pat_None [OF assms(1)]
  by (simp add: patch_preamble_shn_def Let_def)

theorem C10_shn_no_anchor_unchanged_witness:
  "\<not> contains (BSL # ''usepackage{hyperref}'') ''Plain notes.'' \<and>
   re_search docclass_match ''Plain notes.'' = None \<and>
   \<not> already_patched_shn ''Plain notes.'' \<and>
   patch_preamble_shn ''Plain notes.'' ''<shn>'' ''T'' = ''Plain notes.'' \<and>
   \<not> already_patched_shn (patch_preamble_shn ''Plain notes.'' ''<shn>'' ''T'')"
proof -
  have h1: "\<not> contains (BSL # ''usepackage{hyperref}'') ''Plain notes.''" by simp
  have h2: "re_search docclass_match ''Plain notes.'' = None"
    by (simp add: docclass_match_def lit_def)
  have h3: "\<not> already_patched_shn ''Plain notes.''" by (simp add: already_patched_shn_def)
  from C10_shn_no_anchor_unchanged [OF h1 h2 h3, of "''<shn>''" "''T''"] h1 h2 h3
  show ?thesis by simp
qed

text \<open>
  C5 (bare hyperref declaration, no graphicx). The claim says the declaration is replaced
  by the full Accessibility Block. make_accessible.py replaces it by the hyperref part
  alone: the result holds none of the font-encoding, font-family, input-encoding and
  language declarations. make_accessible_tex.py raises.
\<close>

theorem C5_bare_hyperref_gets_hyperref_part_only:
  "patch_preamble_shn doc_bare_hyperref [] ''T'' =
     BSL # ''documentclass{article}'' @ [NL] @ HYPERREF_TEMPLATE [] ''T'' @ [NL] \<and>
   \<not> contains ''fontenc'' (patch_preamble_shn doc_bare_hyperref [] ''T'') \<and>
   \<not> contains ''lmodern'' (patch_preamble_shn doc_bare_hyperref [] ''T'') \<and>
   \<not> contains ''inputenc'' (patch_preamble_shn doc_bare_hyperref [] ''T'') \<and>
   \<not> contains ''babel'' (patch_preamble_shn doc_bare_hyperref [] ''T'') \<and>
   patch_preamble_tex doc_bare_hyperref ''T'' = Inl re_error"
proof -
  have a: "patch_preamble_shn doc_bare_hyperref [] ''T'' =
     BSL # ''documentclass{article}'' @ [NL] @ HYPERREF_TEMPLATE [] ''T'' @ [NL]"
    by code_simp
  have b: "\<not> contains ''fontenc'' (patch_preamble_shn doc_bare_hyperref [] ''T'')"
    by code_simp
  have c: "\<not> contains ''lmodern'' (patch_preamble_shn doc_bare_hyperref [] ''T'')"
    by code_simp
  have d: "\<not> contains ''inputenc'' (patch_preamble_shn doc_bare_hyperref [] ''T'')"
    by code_simp
  have e: "\<not> contains ''babel'' (patch_preamble_shn doc_bare_hyperref [] ''T'')"
    by code_simp
  show ?thesis
    by (intro conjI a b c d e patch_preamble_tex_raises)
qed

text \<open>
  C1 (idempotence of the preamble patcher). On the same document the first run of
  make_accessible.py leaves a text that \<open>already_patched\<close> does not recognise (it holds
  neither \<open>fontenc\<close> nor \<open>lmodern\<close>), and in which no bare hyperref declaration is left;
  the second run therefore falls through to the class declaration and inserts the whole
  block after it: the hyperref part now stands twice.
\<close>

theorem C1_shn_second_run_inserts_again:
  "preamble_step_shn doc_bare_hyperref ''T'' =
     BSL # ''documentclass{article}'' @ [NL] @ HYPERREF_TEMPLATE [] ''T'' @ [NL] \<and>
   preamble_step_shn (preamble_step_shn doc_bare_hyperref ''T'') ''T'' =
     BSL # ''documentclass{article}'' @ [NL] @ PREAMBLE_TEMPLATE [] @ [NL] @
     HYPERREF_TEMPLATE [] ''T'' @ [NL] @ HYPERREF_TEMPLATE [] ''T'' @ [NL] \<and>
   preamble_step_shn (preamble_step_shn doc_bare_hyperref ''T'') ''T'' \<noteq>
     preamble_step_shn doc_bare_hyperref ''T''"
proof -
  have a: "preamble_step_shn doc_bare_hyperref ''T'' =
     BSL # ''documentclass{article}'' @ [NL] @ HYPERREF_TEMPLATE [] ''T'' @ [NL]"
    by code_simp
  have b: "preamble_step_shn (preamble_step_shn doc_bare_hyperref ''T'') ''T'' =
     BSL # ''documentclass{article}'' @ [NL] @ PREAMBLE_TEMPLATE [] @ [NL] @
     HYPERREF_TEMPLATE [] ''T'' @ [NL] @ HYPERREF_TEMPLATE [] ''T'' @ [NL]"
    by code_simp
  have c: "preamble_step_shn (preamble_step_shn doc_bare_hyperref ''T'') ''T'' \<noteq>
     preamble_step_shn doc_bare_hyperref ''T''"
    by code_simp
  show ?thesis
    by (intro conjI a b c)
qed

text \<open>
  C4 (anchor priority). With a graphicx and a bare hyperref declaration that are not on
  adjacent lines, make_accessible.py leaves the graphicx declaration alone and replaces
  the hyperref declaration by the hyperref part: nothing is inserted before the graphicx
  declaration and the font declarations are missing. make_accessible_tex.py raises.
\<close>

theorem C4_separated_anchors:
  "patch_preamble_shn doc_separated [] ''T'' =
     BSL # ''documentclass{article}'' @ [NL] @ BSL # ''usepackage{graphicx}'' @ [NL] @
     BSL # ''usepackage{amsmath}'' @ [NL] @ HYPERREF_TEMPLATE [] ''T'' @ [NL] \<and>
   \<not> contains ''fontenc'' (patch_preamble_shn doc_separated [] ''T'') \<and>
   patch_preamble_tex doc_separated ''T'' = Inl re_error"
proof -
  have a: "patch_preamble_shn doc_separated [] ''T'' =
     BSL # ''documentclass{article}'' @ [NL] @ BSL # ''usepackage{graphicx}'' @ [NL] @
     BSL # ''usepackage{amsmath}'' @ [NL] @ HYPERREF_TEMPLATE [] ''T'' @ [NL]"
    by code_simp
  have b: "\<not> contains ''fontenc'' (patch_preamble_shn doc_separated [] ''T'')"
    by code_simp
  show ?thesis
    by (intro conjI a b patch_preamble_tex_raises)
qed

text \<open>
  C6 (class-declaration fallback). make_accessible.py does what the scenario says: the
  block, with the title in it, follows the class declaration and the result counts as
  patched. make_accessible_tex.py raises on the same document.
\<close>

theorem C6_class_fallback:
  "patch_preamble_tex doc_class_only ''T'' = Inl re_error \<and>
   patch_preamble_shn doc_class_only [] ''T'' =
     BSL # ''documentclass{article}'' @ [NL] @ PREAMBLE_TEMPLATE [] @ [NL] @
     HYPERREF_TEMPLATE [] ''T'' @ [NL] @ BSL # ''begin{document}'' \<and>
   already_patched_shn (patch_preamble_shn doc_class_only [] ''T'')"
proof -
  have a: "patch_preamble_shn doc_class_only [] ''T'' =
     BSL # ''documentclass{article}'' @ [NL] @ PREAMBLE_TEMPLATE [] @ [NL] @
     HYPERREF_TEMPLATE [] ''T'' @ [NL] @ BSL # ''begin{document}''"
    by code_simp
  have b: "already_patched_shn (patch_preamble_shn doc_class_only [] ''T'')"
    by code_simp
  show ?thesis
    by (intro conjI a b patch_preamble_tex_raises)
qed

section \<open>Properties of the image wrappers\<close>

subsection \<open>Matches of \<open>INCL_RE\<close>, alternative texts, and the scan\<close>

lemma dropWhile_eq_Cons_D:
  assumes "dropWhile (\<lambda>x. x \<noteq> a) t = y # r"
  shows "y = a \<and> t = takeWhile (\<lambda>x. x \<noteq> a) t @ a # r"
proof -
  have "takeWhile (\<lambda>x. x \<noteq> a) t @ dropWhile (\<lambda>x. x \<noteq> a) t = t"
    by (rule takeWhile_dropWhile_id)
  then have 1: "takeWhile (\<lambda>x. x \<noteq> a) t @ y # r = t"
    by (simp only: assms)
  have 2: "y = a"
    using assms hd_dropWhile [of "\<lambda>x. x \<noteq> a" t] by auto
  show ?thesis
  proof (intro conjI)
    show "y = a" by (rule 2)
    show "t = takeWhile (\<lambda>x. x \<noteq> a) t @ a # r"
      using 1 unfolding 2 by (rule sym)
  qed
qed

lemma takeWhile_until: "a \<notin> set u \<Longrightarrow> takeWhile (\<lambda>x. x \<noteq> a) (u @ a # r) = u"
  by (induction u) auto

lemma dropWhile_until: "a \<notin> set u \<Longrightarrow> dropWhile (\<lambda>x. x \<noteq> a) (u @ a # r) = a # r"
  by (induction u) auto

lemma takeWhile_not_mem: "a \<notin> set (takeWhile (\<lambda>x. x \<noteq> a) t)"
  by (auto dest: set_takeWhileD)

lemma bracket_group_SomeD:
  assumes "bracket_group s = Some (g, r)"
  shows "s = g @ r \<and> (\<exists>u. g = CHR ''['' # u @ '']'' \<and> CHR '']'' \<notin> set u)"
proof -
  from assms obtain t y where s: "s = CHR ''['' # t"
    and d: "dropWhile (\<lambda>x. x \<noteq> CHR '']'') t = y # r"
    and g: "g = CHR ''['' # takeWhile (\<lambda>x. x \<noteq> CHR '']'') t @ '']''"
    by (auto simp: bracket_group_def split: list.splits if_splits)
  from dropWhile_eq_Cons_D [OF d] s g show ?thesis
    using takeWhile_not_mem [of "CHR '']''" t] by auto
qed

lemma braced_SomeD:
  assumes "braced s = Some (f, r)"
  shows "s = ''{'' @ f @ ''}'' @ r \<and> valid_fname f"
proof -
  from assms obtain t y where s: "s = CHR ''{'' # t"
    and d: "dropWhile (\<lambda>x. x \<noteq> CHR ''}'') t = y # r"
    and f: "f = takeWhile (\<lambda>x. x \<noteq> CHR ''}'') t" and ne: "f \<noteq> []"
    by (auto simp: braced_def split: list.splits if_splits)
  from dropWhile_eq_Cons_D [OF d] s f ne show ?thesis
    using takeWhile_not_mem [of "CHR ''}''" t] by (auto simp: valid_fname_def)
qed

lemma lit_SomeD: "lit p s = Some r \<Longrightarrow> s = p @ r"
  by (auto simp: lit_def prefix_def split: if_splits)

lemma lit_append [simp]: "lit p (p @ r) = Some r"
  by (simp add: lit_def)

lemma INCL_RE_SomeD:
  assumes "INCL_RE s = Some (opts, fname, r)"
  shows "s = directive opts fname @ r \<and> valid_opts opts \<and> valid_fname fname"
proof -
  from assms obtain s1 where s1: "s = (BSL # ''includegraphics'') @ s1"
    and o: "optional_then bracket_group braced s1 = Some (opts, fname, r)"
    by (auto simp: INCL_RE_def split: option.splits dest: lit_SomeD)
  show ?thesis
  proof (cases "case bracket_group s1 of None \<Rightarrow> None | Some (g, r) \<Rightarrow> map_option (Pair g) (braced r)")
    case None
    with o have "braced s1 = Some (fname, r)" and "opts = []"
      by (auto simp: optional_then_def)
    with s1 show ?thesis
      by (auto dest!: braced_SomeD simp: directive_def valid_opts_def)
  next
    case (Some x)
    with o obtain r1 where b: "bracket_group s1 = Some (opts, r1)" and c: "braced r1 = Some (fname, r)"
      by (auto simp: optional_then_def split: option.splits)
    from bracket_group_SomeD [OF b] braced_SomeD [OF c] s1 show ?thesis
      by (auto simp: directive_def valid_opts_def)
  qed
qed

lemma braced_fname: "valid_fname f \<Longrightarrow> braced (''{'' @ f @ ''}'' @ r) = Some (f, r)"
  by (simp add: braced_def valid_fname_def takeWhile_until dropWhile_until)

lemma bracket_group_opts:
  "CHR '']'' \<notin> set u \<Longrightarrow> bracket_group (CHR ''['' # u @ '']'' @ r) = Some (CHR ''['' # u @ '']'', r)"
  by (simp add: bracket_group_def takeWhile_until dropWhile_until)

lemma INCL_RE_directive:
  assumes "valid_opts opts" and "valid_fname fname"
  shows "INCL_RE (directive opts fname @ r) = Some (opts, fname, r)"
proof (cases "opts = []")
  case True
  then show ?thesis
    using braced_fname [OF assms(2), of r]
    by (simp add: INCL_RE_def directive_def lit_def optional_then_def bracket_group_def)
next
  case False
  with assms(1) obtain u where u: "opts = CHR ''['' # u @ '']''" "CHR '']'' \<notin> set u"
    by (auto simp: valid_opts_def)
  show ?thesis
    using braced_fname [OF assms(2), of r] bracket_group_opts [OF u(2), of "''{'' @ fname @ ''}'' @ r"]
    by (simp add: INCL_RE_def directive_def lit_def optional_then_def u)
qed

lemma INCL_RE_not_bsl: "c \<noteq> BSL \<Longrightarrow> INCL_RE (c # s) = None"
  by (simp add: INCL_RE_def lit_def)

lemma INCL_RE_Nil [simp]: "INCL_RE [] = None"
  by (simp add: INCL_RE_def lit_def)

subsection \<open>alt texts\<close>

lemma set_split_on: "xs \<in> set (split_on sep s) \<Longrightarrow> set xs \<subseteq> set s"
proof (induction s arbitrary: xs)
  case Nil
  then show ?case by simp
next
  case (Cons c s)
  show ?case
  proof (cases "split_on sep s")
    case Nil
    with Cons.prems show ?thesis by auto
  next
    case (Cons x rest)
    have x: "set x \<subseteq> set s" using Cons.IH [of x] Cons by simp
    have r: "\<And>y. y \<in> set rest \<Longrightarrow> set y \<subseteq> set s" using Cons.IH Cons by simp
    from Cons.prems Cons x r show ?thesis
      by (auto split: if_splits)
  qed
qed

lemma set_path_name: "set (path_name f) \<subseteq> set f"
proof (cases "rev (filter (\<lambda>x. x \<noteq> [] \<and> x \<noteq> ''.'') (split_on CHR ''/'' f))")
  case Nil
  then show ?thesis by (simp add: path_name_def)
next
  case (Cons x xs)
  then have "x \<in> set (rev (filter (\<lambda>x. x \<noteq> [] \<and> x \<noteq> ''.'') (split_on CHR ''/'' f)))"
    by simp
  then have "x \<in> set (split_on CHR ''/'' f)" by simp
  then have "set x \<subseteq> set f" by (rule set_split_on)
  with Cons show ?thesis by (simp add: path_name_def)
qed

lemma set_path_stem: "set (path_stem f) \<subseteq> set f"
  using set_path_name [of f]
  by (auto simp: path_stem_def Let_def split: option.splits dest: in_set_takeD)

lemma set_strip: "set (strip s) \<subseteq> set s"
  by (auto simp: strip_def dest!: set_dropWhileD)

lemma set_strip_long_numbers: "set (strip_long_numbers s) \<subseteq> set s"
proof (induction s rule: strip_long_numbers.induct)
  case 1
  then show ?case by simp
next
  case (2 c s)
  show ?case
  proof (cases "is_digit c")
    case False
    with 2 show ?thesis by auto
  next
    case True
    have ih: "set (strip_long_numbers (dropWhile is_digit (c # s)))
                \<subseteq> set (dropWhile is_digit (c # s))"
      using "2.IH"(1) [OF True refl refl] "2.IH"(2) [OF True refl refl]
      by (cases "4 \<le> length (takeWhile is_digit (c # s))") auto
    have d: "set (dropWhile is_digit (c # s)) \<subseteq> set (c # s)"
      by (auto dest: set_dropWhileD)
    have t: "set (takeWhile is_digit (c # s)) \<subseteq> set (c # s)"
      by (auto dest: set_takeWhileD)
    have "strip_long_numbers (c # s) =
            (if 4 \<le> length (takeWhile is_digit (c # s))
             then strip_long_numbers (dropWhile is_digit (c # s))
             else takeWhile is_digit (c # s) @ strip_long_numbers (dropWhile is_digit (c # s)))"
      using True by (simp add: Let_def)
    with ih d t show ?thesis
      by (auto simp del: strip_long_numbers.simps takeWhile.simps dropWhile.simps split: if_splits)
  qed
qed

lemma char_of_eqD: "char_of (m::nat) = x \<Longrightarrow> m < 256 \<Longrightarrow> of_char x = m"
  by (metis of_char_of mod_less)

lemma lower_char_special:
  assumes "special x" and "lower_char c = x"
  shows "c = x"
proof (rule ccontr)
  assume ne: "c \<noteq> x"
  define n where "n = (of_char c :: nat)"
  from ne assms(2) have up: "(65 \<le> n \<and> n \<le> 90) \<or> (192 \<le> n \<and> n \<le> 222 \<and> n \<noteq> 215)"
    and eq: "char_of (n + 32) = x"
    by (auto simp: lower_char_def Let_def n_def split: if_splits)
  from up have "n + 32 < 256" by auto
  with eq have "of_char x = n + 32" by (rule char_of_eqD)
  moreover from assms(1) have "(of_char x :: nat) = 92 \<or> (of_char x :: nat) = 125 \<or> (of_char x :: nat) = 93"
    by (auto simp: special_def)
  ultimately show False using up by auto
qed

lemma special_cases: "special x \<Longrightarrow> x = BSL \<or> x = CHR ''}'' \<or> x = CHR '']''"
  by (simp add: special_def)

lemma known_tex_special: "known_tex n = Some d \<Longrightarrow> special x \<Longrightarrow> x \<notin> set d"
  unfolding known_tex_def
  by (elim special_cases [THEN disjE] disjE; simp split: if_splits; fastforce)

lemma known_shn_special: "known_shn n = Some d \<Longrightarrow> special x \<Longrightarrow> x \<notin> set d"
  unfolding known_shn_def
  by (elim special_cases [THEN disjE] disjE; simp split: if_splits; fastforce)

lemma folder_guesses_special: "special x \<Longrightarrow> x \<notin> set (folder_guesses d)"
  unfolding folder_guesses_def
  by (elim special_cases [THEN disjE] disjE; simp)

lemma guess_alt_tex_special:
  assumes "special x" and "x \<in> set (guess_alt_tex f)"
  shows "x \<in> set f"
proof (cases "known_tex (lower (path_stem f))")
  case (Some d)
  with assms known_tex_special [OF Some assms(1)] show ?thesis
    by (simp add: guess_alt_tex_def)
next
  case None
  let ?m = "map (\<lambda>c. if c = CHR ''-'' \<or> c = CHR ''_'' then CHR '' '' else c) (lower (path_stem f))"
  from assms(1) have nx: "x \<notin> set ''Figure: ''" "x \<notin> set ''Figure (''" "x \<notin> set '')''" "x \<noteq> CHR '' ''"
    by (auto simp: special_def)
  from None assms(2) nx
  have "x \<in> set (strip (strip_long_numbers ?m)) \<or> x \<in> set (path_name f)"
    by (auto simp: guess_alt_tex_def Let_def split: if_splits)
  then show ?thesis
  proof
    assume "x \<in> set (path_name f)"
    then show ?thesis using set_path_name by blast
  next
    assume "x \<in> set (strip (strip_long_numbers ?m))"
    then have "x \<in> set ?m" using set_strip set_strip_long_numbers by blast
    then obtain c where c: "c \<in> set (lower (path_stem f))"
      and "x = (if c = CHR ''-'' \<or> c = CHR ''_'' then CHR '' '' else c)" by auto
    with nx have "x = c" by (auto split: if_splits)
    with c obtain c0 where "c0 \<in> set (path_stem f)" and "lower_char c0 = x"
      by (auto simp: lower_def)
    with lower_char_special [OF assms(1), of c0] have "x \<in> set (path_stem f)" by auto
    then show ?thesis using set_path_stem by blast
  qed
qed

lemma guess_alt_shn_special:
  assumes "special x" and "x \<in> set (guess_alt_shn f)"
  shows "x \<in> set f"
proof (cases "known_shn (lower (path_stem f))")
  case (Some d)
  with assms known_shn_special [OF Some assms(1)] show ?thesis
    by (simp add: guess_alt_shn_def)
next
  case None
  from assms(1) have nx: "x \<notin> set ''Figure (''" "x \<notin> set '' (''" "x \<notin> set '')''"
    by (auto simp: special_def)
  from None assms(2) nx folder_guesses_special [OF assms(1)]
  have "x \<in> set (path_name f)"
    by (auto simp: guess_alt_shn_def Let_def split: list.splits)
  then show ?thesis using set_path_name by blast
qed

lemma ALT_MARKER_tex_special: "special x \<Longrightarrow> x \<notin> set (ALT_MARKER_tex @ '' '')"
  unfolding ALT_MARKER_tex_def
  by (elim special_cases [THEN disjE] disjE; simp)

lemma ALT_MARKER_shn_special: "special x \<Longrightarrow> x \<notin> set (ALT_MARKER_shn @ '' '')"
  unfolding ALT_MARKER_shn_def
  by (elim special_cases [THEN disjE] disjE; simp)

lemma alt_tex_special: "special x \<Longrightarrow> x \<in> set (alt_tex f) \<Longrightarrow> x \<in> set f"
  using guess_alt_tex_special [of x f] ALT_MARKER_tex_special [of x]
  by (auto simp: alt_tex_def)

lemma alt_shn_special: "special x \<Longrightarrow> x \<in> set (alt_shn f) \<Longrightarrow> x \<in> set f"
  using guess_alt_shn_special [of x f] ALT_MARKER_shn_special [of x]
  by (auto simp: alt_shn_def)

lemma alt_keeps_tex: "alt_keeps alt_tex"
  by (auto simp: alt_keeps_def dest: alt_tex_special)

lemma alt_keeps_shn: "alt_keeps alt_shn"
  by (auto simp: alt_keeps_def dest: alt_shn_special)

lemma alt_keepsD: "alt_keeps alt \<Longrightarrow> special x \<Longrightarrow> x \<notin> set f \<Longrightarrow> x \<notin> set (alt f)"
  by (auto simp: alt_keeps_def)

lemma directive_Cons: "directive opts fname = BSL # ''includegraphics'' @ opts @ ''{'' @ fname @ ''}''"
  by (simp add: directive_def)

lemma wrapper_Cons:
  "wrapper opts fname alt = BSL # ''pdftooltip{'' @ directive opts fname @ ''}{'' @ alt @ ''}''"
  by (simp add: wrapper_def TOOLTIP_def)

lemma wrap_scan_match:
  assumes "INCL_RE (c # s) = Some (opts, fname, r)"
  shows "wrap_scan w a pre (c # s) =
           (if w (pre @ c # s) (length pre) then directive opts fname
            else wrapper opts fname (a fname)) @ wrap_scan w a (pre @ directive opts fname) r"
  using assms by simp

lemma wrap_scan_no_match:
  "INCL_RE (c # s) = None \<Longrightarrow> wrap_scan w a pre (c # s) = c # wrap_scan w a (pre @ [c]) s"
  by simp

lemma wrap_scan_hd: "\<exists>X. wrap_scan w a pre (c # s) = c # X"
proof (cases "INCL_RE (c # s)")
  case None
  then show ?thesis by simp
next
  case (Some m)
  obtain opts fname r where m: "m = (opts, fname, r)" by (cases m)
  from INCL_RE_SomeD [OF Some [unfolded m]] have "c = BSL"
    by (simp add: directive_Cons)
  with Some m show ?thesis
    by (simp add: directive_Cons wrapper_Cons)
qed

lemma wrap_scan_prefix_plain:
  "BSL \<notin> set L \<Longrightarrow> prefix L (wrap_scan w a pre s) \<Longrightarrow> prefix L s"
proof (induction s arbitrary: L pre)
  case Nil
  then show ?case by simp
next
  case (Cons c s)
  show ?case
  proof (cases L)
    case Nil
    then show ?thesis by simp
  next
    case (Cons x L')
    show ?thesis
    proof (cases "INCL_RE (c # s)")
      case None
      with Cons.prems Cons Cons.IH [of L' "pre @ [c]"] show ?thesis by auto
    next
      case (Some m)
      from wrap_scan_hd [of w a pre c s] obtain X where X: "wrap_scan w a pre (c # s) = c # X" ..
      obtain opts fname r where m: "m = (opts, fname, r)" by (cases m)
      from INCL_RE_SomeD [OF Some [unfolded m]] have "c = BSL"
        by (simp add: directive_Cons)
      with Cons.prems X Cons show ?thesis by auto
    qed
  qed
qed

lemma wrap_scan_copy:
  "BSL \<notin> set L \<Longrightarrow> wrap_scan w a pre (L @ s) = L @ wrap_scan w a (pre @ L) s"
  by (induction L arbitrary: pre) (auto simp: INCL_RE_not_bsl)

lemma dropWhile_Nil_iff: "dropWhile (\<lambda>x. x \<noteq> a) t = [] \<longleftrightarrow> a \<notin> set t"
  by (induction t) auto

lemma braced_Cons_Cons:
  "braced (c # d # t) = None \<longleftrightarrow> \<not> (c = CHR ''{'' \<and> d \<noteq> CHR ''}'' \<and> CHR ''}'' \<in> set t)"
proof (cases "c = CHR ''{''")
  case False
  then show ?thesis by (simp add: braced_def)
next
  case c: True
  show ?thesis
  proof (cases "d = CHR ''}''")
    case True
    with c show ?thesis by (simp add: braced_def)
  next
    case False
    show ?thesis
    proof (cases "dropWhile (\<lambda>x. x \<noteq> CHR ''}'') t")
      case Nil
      then have "CHR ''}'' \<notin> set t"
        using dropWhile_Nil_iff [of "CHR ''}''" t] by blast
      with c False show ?thesis by (simp add: braced_def Nil)
    next
      case (Cons y r)
      then have "CHR ''}'' \<in> set t"
        using dropWhile_Nil_iff [of "CHR ''}''" t] by auto
      with c False show ?thesis by (simp add: braced_def Cons)
    qed
  qed
qed

lemma braced_None_iff: "braced s = None \<longleftrightarrow> \<not> braced_ok s"
proof (cases s)
  case Nil
  then show ?thesis by (simp add: braced_def)
next
  case (Cons c t)
  show ?thesis
  proof (cases t)
    case Nil
    with Cons show ?thesis by (simp add: braced_def)
  next
    case t: (Cons d t')
    show ?thesis unfolding Cons t by (simp only: braced_Cons_Cons braced_ok.simps)
  qed
qed

lemma bracket_braced_None_iff:
  "(case bracket_group y of None \<Rightarrow> None | Some (g, r) \<Rightarrow> map_option (Pair g) (braced r)) = None
     \<longleftrightarrow> \<not> (\<exists>t. y = CHR ''['' # t \<and> after_bracket t)"
proof (cases y)
  case Nil
  then show ?thesis by (simp add: bracket_group_def)
next
  case (Cons c t)
  show ?thesis
  proof (cases "c = CHR ''[''")
    case False
    with Cons show ?thesis by (simp add: bracket_group_def)
  next
    case True
    show ?thesis
    proof (cases "dropWhile (\<lambda>x. x \<noteq> CHR '']'') t")
      case Nil
      with Cons True show ?thesis by (simp add: bracket_group_def after_bracket_def Nil)
    next
      case d: (Cons z r)
      with Cons True show ?thesis
        by (simp add: bracket_group_def after_bracket_def d braced_None_iff)
    qed
  qed
qed

lemma INCL_RE_None_iff:
  "INCL_RE x = None \<longleftrightarrow>
     \<not> (\<exists>y. x = BSL # ''includegraphics'' @ y \<and> ((\<exists>t. y = CHR ''['' # t \<and> after_bracket t) \<or> braced_ok y))"
proof (cases "lit (BSL # ''includegraphics'') x")
  case None
  then have "\<not> prefix (BSL # ''includegraphics'') x" by (simp add: lit_def split: if_splits)
  then have "\<not> (\<exists>y. x = BSL # ''includegraphics'' @ y)" by (auto simp: prefix_def)
  with None show ?thesis by (simp add: INCL_RE_def)
next
  case (Some y)
  then have x: "x = (BSL # ''includegraphics'') @ y" by (rule lit_SomeD)
  have "INCL_RE x = optional_then bracket_group braced y"
    using Some by (simp add: INCL_RE_def)
  also have "\<dots> = None \<longleftrightarrow> \<not> ((\<exists>t. y = CHR ''['' # t \<and> after_bracket t) \<or> braced_ok y)"
    using bracket_braced_None_iff [of y] braced_None_iff [of y]
    by (auto simp: optional_then_def split: option.splits)
  finally show ?thesis using x by auto
qed

lemma directive_has_close: "CHR ''}'' \<in> set (directive opts fname)"
  by (simp add: directive_def)

lemma directive_last: "\<exists>d. directive opts fname = d @ ''}''"
proof
  show "directive opts fname = (BSL # ''includegraphics'' @ opts @ ''{'' @ fname) @ ''}''"
    by (simp add: directive_def)
qed

lemma wrap_scan_close: "CHR ''}'' \<in> set (wrap_scan w a pre s) \<Longrightarrow> CHR ''}'' \<in> set s"
proof (induction w a pre s rule: wrap_scan.induct)
  case (1 w a pre)
  then show ?case by simp
next
  case (2 w a pre c s)
  show ?case
  proof (cases "INCL_RE (c # s)")
    case None
    with 2 show ?thesis by auto
  next
    case (Some m)
    obtain opts fname r where m: "m = (opts, fname, r)" by (cases m)
    from INCL_RE_SomeD [OF Some [unfolded m]] directive_has_close [of opts fname]
    show ?thesis by (metis Un_iff set_append)
  qed
qed

lemma wrap_scan_braced_ok:
  assumes "braced_ok (wrap_scan w a pre s)"
  shows "braced_ok s"
proof (cases s)
  case Nil
  with assms show ?thesis by simp
next
  case (Cons c s1)
  from wrap_scan_hd [of w a pre c s1] obtain X where X: "wrap_scan w a pre (c # s1) = c # X" ..
  with assms Cons have c: "c = CHR ''{''" by (cases X) auto
  then have X1: "X = wrap_scan w a (pre @ [c]) s1"
    using X by (simp add: INCL_RE_not_bsl)
  show ?thesis
  proof (cases s1)
    case Nil
    with X1 assms Cons X show ?thesis by simp
  next
    case s1: (Cons d t)
    from wrap_scan_hd [of w a "pre @ [c]" d t] obtain Y
      where Y: "wrap_scan w a (pre @ [c]) (d # t) = d # Y" ..
    from assms Cons X X1 s1 Y have d: "d \<noteq> CHR ''}''" and "CHR ''}'' \<in> set Y" by auto
    then have "CHR ''}'' \<in> set (wrap_scan w a (pre @ [c]) (d # t))" using Y by simp
    then have "CHR ''}'' \<in> set (d # t)" by (rule wrap_scan_close)
    with d c Cons s1 show ?thesis by simp
  qed
qed

lemma after_bracket_Cons:
  "after_bracket (c # t) = (if c = CHR '']'' then braced_ok t else after_bracket t)"
  by (simp add: after_bracket_def)

lemma after_bracket_skip: "CHR '']'' \<notin> set u \<Longrightarrow> after_bracket (u @ v) = after_bracket v"
  by (induction u) (auto simp: after_bracket_Cons)

lemma after_bracket_first:
  "CHR '']'' \<notin> set u1 \<Longrightarrow> after_bracket (u1 @ CHR '']'' # u2) = braced_ok u2"
  by (induction u1) (auto simp: after_bracket_Cons)

lemma braced_ok_ends:
  assumes "u \<noteq> []" and "last u = CHR ''}''"
  shows "braced_ok (u @ Z) = braced_ok (u @ Z')"
proof (cases u)
  case Nil
  with assms show ?thesis by simp
next
  case (Cons x u')
  show ?thesis
  proof (cases u')
    case Nil
    with Cons assms have "x = CHR ''}''" by simp
    with Cons Nil show ?thesis by (cases Z; cases Z') auto
  next
    case u': (Cons y u'')
    show ?thesis
    proof (cases u'')
      case Nil
      with Cons u' assms have "y = CHR ''}''" by simp
      with Cons u' Nil show ?thesis by simp
    next
      case (Cons z u''')
      with \<open>u = x # u'\<close> u' assms have "CHR ''}'' \<in> set u''"
        by (metis last_ConsR last_in_set list.distinct(1))
      with \<open>u = x # u'\<close> u' show ?thesis by simp
    qed
  qed
qed

lemma after_bracket_directive:
  assumes "CHR '']'' \<in> set (directive opts fname)"
  shows "after_bracket (directive opts fname @ Z) = after_bracket (directive opts fname @ Z')"
proof -
  from split_list_first [OF assms] obtain u1 u2
    where d: "directive opts fname = u1 @ CHR '']'' # u2" and u1: "CHR '']'' \<notin> set u1" by blast
  from directive_last [of opts fname] obtain d0 where d0: "directive opts fname = d0 @ ''}''" ..
  have "u2 \<noteq> []"
  proof
    assume "u2 = []"
    with d d0 have "last (u1 @ '']'') = last (d0 @ ''}'')" by simp
    then show False by simp
  qed
  moreover from this d d0 have "last u2 = CHR ''}''"
    by (metis last.simps last_appendR list.distinct(1) snoc_eq_iff_butlast)
  ultimately have "braced_ok (u2 @ Z) = braced_ok (u2 @ Z')" by (rule braced_ok_ends)
  then show ?thesis
    using after_bracket_first [OF u1, of "u2 @ Z"] after_bracket_first [OF u1, of "u2 @ Z'"]
    by (simp add: d)
qed

lemma special_rbracket: "special (CHR '']'')" by (simp add: special_def)

lemma special_bsl: "special BSL" by (simp add: special_def)

lemma special_rbrace: "special (CHR ''}'')" by (simp add: special_def)

lemma wrap_scan_after_bracket:
  "alt_keeps a \<Longrightarrow> after_bracket (wrap_scan w a pre s) \<Longrightarrow> after_bracket s"
proof (induction w a pre s rule: wrap_scan.induct)
  case (1 w a pre)
  then show ?case by simp
next
  case (2 w a pre c s)
  show ?case
  proof (cases "INCL_RE (c # s)")
    case None
    show ?thesis
    proof (cases "c = CHR '']''")
      case True
      with None "2.prems" wrap_scan_braced_ok show ?thesis
        by (auto simp: after_bracket_Cons)
    next
      case False
      with None "2.prems" "2.IH"(1) show ?thesis
        by (auto simp: after_bracket_Cons)
    qed
  next
    case (Some m)
    obtain opts fname r where m: "m = (opts, fname, r)" by (cases m)
    note S = Some [unfolded m]
    from INCL_RE_SomeD [OF S] have cs: "c # s = directive opts fname @ r" by simp
    let ?d = "directive opts fname"
    let ?T = "wrap_scan w a (pre @ ?d) r"
    have out: "wrap_scan w a pre (c # s) =
        (if w (pre @ c # s) (length pre) then ?d else wrapper opts fname (a fname)) @ ?T"
      using S by simp
    have tt: "CHR '']'' \<notin> set TOOLTIP" by (simp add: TOOLTIP_def)
    have wr: "wrapper opts fname (a fname) @ ?T = TOOLTIP @ (?d @ (''}{'' @ a fname @ ''}'' @ ?T))"
      by (simp add: wrapper_def)
    show ?thesis
    proof (cases "CHR '']'' \<in> set ?d")
      case True
      have "after_bracket (wrap_scan w a pre (c # s)) = after_bracket (?d @ r)"
      proof (cases "w (pre @ c # s) (length pre)")
        case True
        with out after_bracket_directive [OF \<open>CHR '']'' \<in> set ?d\<close>, of ?T r] show ?thesis by simp
      next
        case False
        then have "wrap_scan w a pre (c # s) = TOOLTIP @ (?d @ (''}{'' @ a fname @ ''}'' @ ?T))"
          using out wr by simp
        then show ?thesis
          using after_bracket_skip [OF tt, of "?d @ (''}{'' @ a fname @ ''}'' @ ?T)"]
            after_bracket_directive [OF \<open>CHR '']'' \<in> set ?d\<close>, of "''}{'' @ a fname @ ''}'' @ ?T" r]
          by simp
      qed
      with "2.prems" cs show ?thesis by simp
    next
      case False
      then have "CHR '']'' \<notin> set fname" by (simp add: directive_def)
      with "2.prems"(1) have nf: "CHR '']'' \<notin> set (a fname)"
        using alt_keepsD [OF _ special_rbracket] by blast
      have skip1: "after_bracket (?d @ Z) = after_bracket Z" for Z
        using False by (rule after_bracket_skip)
      have skip2: "after_bracket (TOOLTIP @ (?d @ (''}{'' @ a fname @ ''}'' @ Z))) = after_bracket Z" for Z
      proof -
        have "CHR '']'' \<notin> set (TOOLTIP @ ?d @ ''}{'' @ a fname @ ''}'')"
          using tt False nf by simp
        from after_bracket_skip [OF this, of Z] show ?thesis by simp
      qed
      have "after_bracket (wrap_scan w a pre (c # s)) = after_bracket ?T"
        using out wr skip1 [of ?T] skip2 [of ?T] by (cases "w (pre @ c # s) (length pre)") simp_all
      with "2.prems" have "after_bracket ?T" by simp
      with "2.IH"(2) [OF S refl refl "2.prems"(1)] have "after_bracket r" by simp
      with skip1 [of r] cs show ?thesis by simp
    qed
  qed
qed

lemma no_new_match:
  assumes "alt_keeps a" and "INCL_RE (c # s) = None"
  shows "INCL_RE (c # wrap_scan w a pre s) = None"
proof (rule ccontr)
  assume "INCL_RE (c # wrap_scan w a pre s) \<noteq> None"
  then obtain y' where y': "c # wrap_scan w a pre s = BSL # ''includegraphics'' @ y'"
    and ok: "(\<exists>t. y' = CHR ''['' # t \<and> after_bracket t) \<or> braced_ok y'"
    unfolding INCL_RE_None_iff by blast
  from y' have c: "c = BSL" and p: "prefix ''includegraphics'' (wrap_scan w a pre s)"
    by (auto simp: prefix_def)
  have "prefix ''includegraphics'' s"
    by (rule wrap_scan_prefix_plain [OF _ p]) simp
  then obtain y where s: "s = ''includegraphics'' @ y" by (auto simp: prefix_def)
  have "wrap_scan w a pre s = ''includegraphics'' @ wrap_scan w a (pre @ ''includegraphics'') y"
    unfolding s by (rule wrap_scan_copy) simp
  with y' have yy: "y' = wrap_scan w a (pre @ ''includegraphics'') y" by simp
  have "(\<exists>t. y = CHR ''['' # t \<and> after_bracket t) \<or> braced_ok y"
    using ok
  proof
    assume "braced_ok y'"
    then show ?thesis using wrap_scan_braced_ok yy by blast
  next
    assume "\<exists>t. y' = CHR ''['' # t \<and> after_bracket t"
    then obtain t' where t': "y' = CHR ''['' # t'" and ab: "after_bracket t'" by blast
    from t' yy have "y \<noteq> []" by auto
    then obtain c1 t where y: "y = c1 # t" by (cases y) auto
    from wrap_scan_hd [of w a "pre @ ''includegraphics''" c1 t] t' yy y
    have c1: "c1 = CHR ''[''" by auto
    then have "wrap_scan w a (pre @ ''includegraphics'') y =
                 CHR ''['' # wrap_scan w a ((pre @ ''includegraphics'') @ ''['') t"
      unfolding y by (simp add: INCL_RE_not_bsl)
    with t' yy have "t' = wrap_scan w a ((pre @ ''includegraphics'') @ ''['') t" by simp
    with ab wrap_scan_after_bracket [OF assms(1)] have "after_bracket t" by blast
    with y c1 show ?thesis by blast
  qed
  then have "INCL_RE (c # s) \<noteq> None"
    unfolding INCL_RE_None_iff using c s by auto
  with assms(2) show False by contradiction
qed



lemma INCL_RE_tooltip: "INCL_RE (TOOLTIP @ X) = None"
  by (simp add: INCL_RE_def lit_def TOOLTIP_def)


subsection \<open>Wrapped detection\<close>

text \<open>
  C9 (wrapped detection). In the sample the first image is wrapped by hand and the
  wrapper is closed; the second image stands inside \<open>\centerline{...}\<close>. The claim says
  the second directive counts as unwrapped. \<open>is_already_wrapped\<close> of
  make_accessible_tex.py only looks at the depth reached at the directive, not at
  whether it went back to zero on the way: the brace of \<open>\centerline\<close> makes it 1, the
  directive counts as wrapped and \<open>wrap_images\<close> leaves the text as it is.
  make_accessible.py stops at the brace that closes the first argument and wraps the
  second image.
\<close>

theorem C9_tex_counts_braces_after_closed_wrapper:
  "is_already_wrapped doc_after_wrapper
     (length (wrapper [] ''a.png'' ''A tray'' @ [NL] @ BSL # ''centerline{'')) \<and>
   wrap_images_tex doc_after_wrapper = doc_after_wrapper \<and>
   \<not> inside_tooltip doc_after_wrapper
     (length (wrapper [] ''a.png'' ''A tray'' @ [NL] @ BSL # ''centerline{'')) \<and>
   wrap_images_shn doc_after_wrapper =
     wrapper [] ''a.png'' ''A tray'' @ [NL] @
     BSL # ''centerline{'' @ wrapper [] ''b.png'' (alt_shn ''b.png'') @ ''}''"
proof -
  have a: "is_already_wrapped doc_after_wrapper
     (length (wrapper [] ''a.png'' ''A tray'' @ [NL] @ BSL # ''centerline{''))"
    by code_simp
  have b: "wrap_images_tex doc_after_wrapper = doc_after_wrapper"
    by code_simp
  have c: "\<not> inside_tooltip doc_after_wrapper
     (length (wrapper [] ''a.png'' ''A tray'' @ [NL] @ BSL # ''centerline{''))"
    by code_simp
  have d: "wrap_images_shn doc_after_wrapper =
     wrapper [] ''a.png'' ''A tray'' @ [NL] @
     BSL # ''centerline{'' @ wrapper [] ''b.png'' (alt_shn ''b.png'') @ ''}''"
    by code_simp
  show ?thesis by (intro conjI a b c d)
qed

subsection \<open>The wrapped tests as functions of the text before the match\<close>

lemma rfind_SomeD: "rfind sub s = Some i \<Longrightarrow> i \<le> length s \<and> prefix sub (drop i s)"
proof (induction s arbitrary: i)
  case Nil
  then show ?case by (auto split: if_splits)
next
  case (Cons c s)
  show ?case
  proof (cases "rfind sub s")
    case None
    with Cons.prems have "prefix sub (c # s)" and "i = 0" by (auto split: if_splits)
    then show ?thesis by auto
  next
    case (Some j)
    with Cons.prems have "i = Suc j" by simp
    with Cons.IH [OF Some] show ?thesis by simp
  qed
qed

lemma rfind_None_iff: "rfind sub s = None \<longleftrightarrow> \<not> sublist sub s"
  by (induction s) (auto simp: sublist_Cons_right split: option.splits)

lemma rfind_append_right:
  "rfind sub b = Some i \<Longrightarrow> rfind sub (a @ b) = Some (length a + i)"
  by (induction a) auto

lemma rfind_append_left:
  assumes "rfind sub b = None"
    and "\<And>k. k < length a \<Longrightarrow> prefix sub (drop k a @ b) \<Longrightarrow> prefix sub (drop k a)"
  shows "rfind sub (a @ b) = rfind sub a"
  using assms(2)
proof (induction a)
  case Nil
  have "sub \<noteq> []" using assms(1) by (cases b) (auto split: option.splits)
  with assms(1) show ?case by simp
next
  case (Cons c a)
  have ih: "rfind sub (a @ b) = rfind sub a"
  proof (rule Cons.IH)
    fix k assume "k < length a" and "prefix sub (drop k a @ b)"
    with Cons.prems [of "Suc k"] show "prefix sub (drop k a)" by simp
  qed
  have "prefix sub (c # a @ b) \<longleftrightarrow> prefix sub (c # a)"
    using Cons.prems [of 0] by (auto intro: prefix_order.trans)
  with ih show ?case by simp
qed

lemma prefix_straddle:
  assumes "a \<noteq> []" and "prefix sub (a @ b)" and "\<not> prefix sub a"
  shows "b \<noteq> [] \<and> hd b \<in> set (tl sub) \<and> last a \<in> set (butlast sub)"
proof -
  from assms(2,3) obtain us where sub: "sub = a @ us" and us: "prefix us b"
    by (auto simp: prefix_append)
  from sub assms(3) have ne: "us \<noteq> []" by auto
  with us obtain r where b: "b = us @ r" by (auto simp: prefix_def)
  from ne b have "b \<noteq> []" by simp
  moreover from ne b assms(1) sub have "hd b \<in> set (tl sub)" by (cases us) auto
  moreover from ne assms(1) sub have "last a \<in> set (butlast sub)"
    by (simp add: butlast_append)
  ultimately show ?thesis by blast
qed

lemma last_from_right: "last_from b = Some t \<Longrightarrow> last_from (a @ b) = Some t"
  by (auto simp: last_from_def dest: rfind_append_right)

lemma last_from_left:
  assumes "last_from b = None" and "clean_cut a b"
  shows "last_from (a @ b) = map_option (\<lambda>t. t @ b) (last_from a)"
proof -
  from assms(1) have n: "rfind TOOLTIP b = None" by (simp add: last_from_def)
  have "rfind TOOLTIP (a @ b) = rfind TOOLTIP a"
  proof (rule rfind_append_left [OF n])
    fix k assume k: "k < length a" and p: "prefix TOOLTIP (drop k a @ b)"
    show "prefix TOOLTIP (drop k a)"
    proof (rule ccontr)
      assume "\<not> prefix TOOLTIP (drop k a)"
      with prefix_straddle [of "drop k a" TOOLTIP b] k p
      have "b \<noteq> []" "hd b \<in> set (tl TOOLTIP)" "last (drop k a) \<in> set (butlast TOOLTIP)"
        by auto
      moreover from k have "last (drop k a) = last a" by simp
      moreover from k have "a \<noteq> []" by auto
      ultimately show False using assms(2) by (simp add: clean_cut_def)
    qed
  qed
  then show ?thesis
  proof (cases "rfind TOOLTIP a")
    case None
    with \<open>rfind TOOLTIP (a @ b) = rfind TOOLTIP a\<close> show ?thesis by (simp add: last_from_def)
  next
    case (Some i)
    from rfind_SomeD [OF Some] have "i \<le> length a" by simp
    with Some \<open>rfind TOOLTIP (a @ b) = rfind TOOLTIP a\<close> show ?thesis
      by (simp add: last_from_def)
  qed
qed

lemma last_from_None_iff: "last_from s = None \<longleftrightarrow> \<not> sublist TOOLTIP s"
  by (simp add: last_from_def rfind_None_iff)

lemma last_from_plain: "BSL \<notin> set s \<Longrightarrow> last_from s = None"
proof -
  assume "BSL \<notin> set s"
  have "\<not> sublist TOOLTIP s"
  proof
    assume "sublist TOOLTIP s"
    then have "set TOOLTIP \<subseteq> set s" by (rule set_mono_sublist)
    with \<open>BSL \<notin> set s\<close> show False by (auto simp: TOOLTIP_def)
  qed
  then show ?thesis by (simp add: last_from_None_iff)
qed

lemma last_from_None_append:
  "last_from a = None \<Longrightarrow> last_from b = None \<Longrightarrow> clean_cut a b \<Longrightarrow> last_from (a @ b) = None"
  by (simp add: last_from_left)

lemma last_from_TOOLTIP: "last_from TOOLTIP = Some TOOLTIP"
  by (simp add: last_from_def TOOLTIP_def)

lemma brace_depth_foldl: "brace_depth d s = foldl bstep d s"
  by (simp add: brace_depth_def bstep_def [abs_def])

lemma brace_depth_shift: "brace_depth d s = d + brace_depth 0 s"
proof (induction s arbitrary: d)
  case Nil
  then show ?case by (simp add: brace_depth_foldl)
next
  case (Cons c s)
  have "brace_depth d (c # s) = brace_depth (bstep d c) s" by (simp add: brace_depth_foldl)
  also have "\<dots> = bstep d c + brace_depth 0 s" by (rule Cons.IH)
  also have "\<dots> = d + (bstep 0 c + brace_depth 0 s)" by (simp add: bstep_def)
  also have "bstep 0 c + brace_depth 0 s = brace_depth (bstep 0 c) s" by (rule Cons.IH [symmetric])
  also have "\<dots> = brace_depth 0 (c # s)" by (simp add: brace_depth_foldl)
  finally show ?case .
qed

lemma brace_depth_append: "brace_depth 0 (a @ b) = brace_depth 0 a + brace_depth 0 b"
proof -
  have "brace_depth 0 (a @ b) = brace_depth (brace_depth 0 a) b" by (simp add: brace_depth_foldl)
  also have "\<dots> = brace_depth 0 a + brace_depth 0 b" by (rule brace_depth_shift)
  finally show ?thesis .
qed

lemma brace_depth_Cons: "brace_depth 0 (c # s) = bstep 0 c + brace_depth 0 s"
  using brace_depth_append [of "[c]" s] by (simp add: brace_depth_foldl)

lemma brace_depth_Nil [simp]: "brace_depth d [] = d"
  by (simp add: brace_depth_foldl)

lemma brace_depth_no_close: "CHR ''}'' \<notin> set s \<Longrightarrow> 0 \<le> brace_depth 0 s"
  by (induction s) (auto simp: brace_depth_Cons bstep_def)

lemma is_already_wrapped_pre: "is_already_wrapped (pre @ s) (length pre) = wp_tex pre"
  by (simp add: is_already_wrapped_def wp_tex_def last_from_def split: option.splits)

lemma closing_pos_ge: "p \<le> closing_pos d p s"
  by (induction s arbitrary: d p) (auto simp: le_Suc_eq dest: Suc_leD)

lemma closing_pos_step:
  "closing_pos d p (c # s) = (if d > 0 then closing_pos (bstep d c) (p + 1) s else p)"
  by (simp add: bstep_def)

lemma closing_pos_open:
  "stays_open d u \<Longrightarrow> p + length u < closing_pos d p (u @ c # v)"
proof (induction u arbitrary: d p)
  case Nil
  then show ?case
    using closing_pos_ge [of "p + 1" "bstep d c" v] by (simp add: closing_pos_step del: closing_pos.simps)
next
  case (Cons x u)
  then show ?case
    using Cons.IH [of "bstep d x" "p + 1"] by (simp add: closing_pos_step del: closing_pos.simps)
qed

lemma closing_pos_closed:
  "\<not> stays_open d u \<Longrightarrow> closing_pos d p (u @ v) \<le> p + length u"
proof (induction u arbitrary: d p)
  case Nil
  then show ?case by (cases v) simp_all
next
  case (Cons x u)
  then show ?case
    using Cons.IH [of "bstep d x" "p + 1"] by (auto simp: closing_pos_step simp del: closing_pos.simps)
qed

lemma stays_open_append: "stays_open d (a @ b) \<Longrightarrow> stays_open d a"
  by (induction a arbitrary: d) (auto, (cases b; auto)+)

lemma inside_tooltip_pre: "inside_tooltip (pre @ c # s) (length pre) = wp_shn pre"
proof (cases "rfind TOOLTIP pre")
  case None
  then have "\<not> contains TOOLTIP pre" by (simp add: contains_sublist rfind_None_iff)
  with None show ?thesis by (simp add: inside_tooltip_def wp_shn_def last_from_def)
next
  case (Some i)
  then have c: "contains TOOLTIP pre"
    using rfind_None_iff [of TOOLTIP pre] by (simp add: contains_sublist)
  from rfind_SomeD [OF Some] have i: "i \<le> length pre" and p: "prefix TOOLTIP (drop i pre)"
    by simp_all
  from p have l: "length TOOLTIP \<le> length (drop i pre)" by (rule prefix_length_le)
  with i have il: "i + length TOOLTIP \<le> length pre" by simp
  let ?u = "drop (length TOOLTIP) (drop i pre)"
  have dr: "drop (i + length TOOLTIP) (pre @ c # s) = ?u @ c # s"
    using il by (simp add: add.commute)
  have lu: "i + length TOOLTIP + length ?u = length pre" using il by simp
  have "length pre < closing_pos 1 (i + length TOOLTIP) (?u @ c # s) \<longleftrightarrow> stays_open 1 ?u"
  proof (cases "stays_open 1 ?u")
    case True
    from closing_pos_open [OF True, of "i + length TOOLTIP" c s] lu True show ?thesis by simp
  next
    case False
    from closing_pos_closed [OF False, of "i + length TOOLTIP" "c # s"] lu False show ?thesis by simp
  qed
  moreover have "i < length pre" using il by (simp add: TOOLTIP_def)
  ultimately show ?thesis
    using Some c dr by (simp add: inside_tooltip_def wp_shn_def last_from_def Let_def)
qed

lemma clean_cut_last: "a \<noteq> [] \<Longrightarrow> last a = CHR ''}'' \<Longrightarrow> clean_cut a b"
  by (simp add: clean_cut_def TOOLTIP_def)

lemma clean_cut_hd: "clean_cut a (BSL # b)"
  by (simp add: clean_cut_def TOOLTIP_def)

lemma directive_ne_last: "directive opts fname \<noteq> [] \<and> last (directive opts fname) = CHR ''}''"
  by (simp add: directive_def)

lemma last_from_braces:
  assumes "last_from x = None"
  shows "last_from (''{'' @ x @ ''}'') = None"
proof -
  have "last_from (x @ ''}'') = None"
    by (rule last_from_None_append [OF assms]) (simp_all add: last_from_def clean_cut_def TOOLTIP_def)
  then show ?thesis
    using last_from_None_append [of "''{''" "x @ ''}''"]
    by (simp add: last_from_def clean_cut_def TOOLTIP_def)
qed

lemma last_from_directive:
  assumes "valid_opts opts" and "tame opts fname"
  shows "last_from (directive opts fname) = None"
proof -
  have 1: "last_from (BSL # ''includegraphics'') = None"
    by (simp add: last_from_def TOOLTIP_def)
  have 2: "last_from opts = None"
    using assms(2) by (simp add: tame_def last_from_None_iff contains_sublist)
  have "last_from fname = None"
    using assms(2) by (simp add: tame_def last_from_None_iff contains_sublist)
  then have 3: "last_from (''{'' @ fname @ ''}'') = None"
    by (rule last_from_braces)
  have c1: "clean_cut opts (''{'' @ fname @ ''}'')"
    using assms(1) by (auto simp: valid_opts_def clean_cut_def TOOLTIP_def)
  have c2: "clean_cut (BSL # ''includegraphics'') (opts @ ''{'' @ fname @ ''}'')"
    by (simp add: clean_cut_def TOOLTIP_def)
  from last_from_None_append [OF 2 3 c1] have "last_from (opts @ ''{'' @ fname @ ''}'') = None" .
  from last_from_None_append [OF 1 this c2] show ?thesis by (simp add: directive_def)
qed

lemma last_from_directive_tail:
  assumes "valid_opts opts" and "tame opts fname" and "last_from u = None"
  shows "last_from (directive opts fname @ u) = None"
  using last_from_None_append [OF last_from_directive [OF assms(1,2)] assms(3)]
    clean_cut_last directive_ne_last by blast

lemma last_from_after_pre:
  assumes "valid_opts opts" and "tame opts fname" and "last_from u = None"
  shows "last_from (pre @ directive opts fname @ u) =
           map_option (\<lambda>t. t @ directive opts fname @ u) (last_from pre)"
proof (rule last_from_left [OF last_from_directive_tail [OF assms]])
  show "clean_cut pre (directive opts fname @ u)"
    using clean_cut_hd by (simp add: directive_def)
qed

lemma last_from_after_wrapper:
  assumes "valid_opts opts" and "tame opts fname" and "last_from u = None"
    and "\<not> contains TOOLTIP alt"
  shows "last_from (P @ wrapper opts fname alt @ u) =
           Some (wrapper opts fname alt @ u)"
proof -
  let ?Y = "''}{'' @ alt @ ''}''"
  have "last_from alt = None"
    using assms(4) by (simp add: last_from_None_iff contains_sublist)
  then have "last_from (''{'' @ alt @ ''}'') = None" by (rule last_from_braces)
  then have y: "last_from ?Y = None"
    using last_from_None_append [of "''}''" "''{'' @ alt @ ''}''"]
    by (simp add: last_from_def clean_cut_def TOOLTIP_def)
  have "last_from (?Y @ u) = None"
    by (rule last_from_None_append [OF y assms(3)]) (rule clean_cut_last, simp_all)
  from last_from_directive_tail [OF assms(1,2) this]
  have n: "last_from (directive opts fname @ ?Y @ u) = None" .
  have cc: "clean_cut (P @ TOOLTIP) (directive opts fname @ ?Y @ u)"
    using clean_cut_hd by (simp add: directive_def)
  have "last_from (P @ TOOLTIP) = Some TOOLTIP"
    by (rule last_from_right [OF last_from_TOOLTIP])
  with last_from_left [OF n cc]
  have "last_from ((P @ TOOLTIP) @ directive opts fname @ ?Y @ u)
          = Some (TOOLTIP @ directive opts fname @ ?Y @ u)" by simp
  then show ?thesis by (simp add: wrapper_def)
qed

lemma wp_tex_new: "wp_tex (P @ TOOLTIP)"
proof -
  have "last_from (P @ TOOLTIP) = Some TOOLTIP"
    by (rule last_from_right [OF last_from_TOOLTIP])
  then show ?thesis by (simp add: wp_tex_def) (simp add: TOOLTIP_def brace_depth_foldl bstep_def)
qed

lemma wp_shn_new: "wp_shn (P @ TOOLTIP)"
proof -
  have "last_from (P @ TOOLTIP) = Some TOOLTIP"
    by (rule last_from_right [OF last_from_TOOLTIP])
  then show ?thesis by (simp add: wp_shn_def)
qed

lemma wp_tex_step:
  assumes vo: "valid_opts opts" and tm: "tame opts fname"
    and alt: "\<not> contains TOOLTIP alt" "CHR ''}'' \<notin> set alt"
    and nw: "\<not> wp_tex pre"
    and w: "wp_tex (pre @ directive opts fname @ u)"
  shows "wp_tex (P @ wrapper opts fname alt @ u)"
proof (cases "last_from u")
  case (Some t)
  have "last_from (pre @ directive opts fname @ u) = Some t"
    using last_from_right [OF Some, of "pre @ directive opts fname"] by simp
  moreover have "last_from (P @ wrapper opts fname alt @ u) = Some t"
    using last_from_right [OF Some, of "P @ wrapper opts fname alt"] by simp
  ultimately show ?thesis using w by (simp add: wp_tex_def)
next
  case None
  let ?d = "directive opts fname"
  from last_from_after_pre [OF vo tm None, of pre] w
  obtain t0 where t0: "last_from pre = Some t0" and d: "0 < brace_depth 0 (t0 @ ?d @ u)"
    by (auto simp: wp_tex_def split: option.splits)
  from nw t0 have "brace_depth 0 t0 \<le> 0" by (simp add: wp_tex_def)
  with d have du: "0 < brace_depth 0 ?d + brace_depth 0 u"
    by (simp add: brace_depth_append)
  have "brace_depth 0 (wrapper opts fname alt @ u) =
          brace_depth 0 ?d + brace_depth 0 alt + brace_depth 0 u"
    by (simp add: wrapper_def TOOLTIP_def brace_depth_append brace_depth_Cons bstep_def)
  with du brace_depth_no_close [OF alt(2)]
  have "0 < brace_depth 0 (wrapper opts fname alt @ u)" by simp
  with last_from_after_wrapper [OF vo tm None alt(1), of P] show ?thesis
    by (simp add: wp_tex_def)
qed

lemma prefix_TOOLTIP_last_from: "last_from pre = Some t \<Longrightarrow> length TOOLTIP \<le> length t"
  by (auto simp: last_from_def dest!: rfind_SomeD dest: prefix_length_le)

lemma wp_shn_step:
  assumes vo: "valid_opts opts" and tm: "tame opts fname"
    and alt: "\<not> contains TOOLTIP alt"
    and nw: "\<not> wp_shn pre"
    and w: "wp_shn (pre @ directive opts fname @ u)"
  shows "wp_shn (P @ wrapper opts fname alt @ u)"
proof (cases "last_from u")
  case (Some t)
  have "last_from (pre @ directive opts fname @ u) = Some t"
    using last_from_right [OF Some, of "pre @ directive opts fname"] by simp
  moreover have "last_from (P @ wrapper opts fname alt @ u) = Some t"
    using last_from_right [OF Some, of "P @ wrapper opts fname alt"] by simp
  ultimately show ?thesis using w by (simp add: wp_shn_def)
next
  case None
  let ?d = "directive opts fname"
  from last_from_after_pre [OF vo tm None, of pre] w
  obtain t0 where t0: "last_from pre = Some t0"
    and d: "stays_open 1 (drop (length TOOLTIP) (t0 @ ?d @ u))"
    by (auto simp: wp_shn_def split: option.splits)
  from prefix_TOOLTIP_last_from [OF t0] d
  have "stays_open 1 (drop (length TOOLTIP) t0 @ ?d @ u)" by simp
  then have "stays_open 1 (drop (length TOOLTIP) t0)" by (rule stays_open_append)
  with nw t0 show ?thesis by (simp add: wp_shn_def)
qed

lemma wrap_scan_directive:
  assumes "valid_opts opts" and "valid_fname fname"
  shows "wrap_scan w a P (directive opts fname @ X) =
           (if w (P @ directive opts fname @ X) (length P) then directive opts fname
            else wrapper opts fname (a fname)) @ wrap_scan w a (P @ directive opts fname) X"
proof -
  obtain Y where Y: "directive opts fname @ X = BSL # Y" by (simp add: directive_def)
  from INCL_RE_directive [OF assms, of X] have "INCL_RE (BSL # Y) = Some (opts, fname, X)"
    by (simp add: Y)
  then show ?thesis unfolding Y by simp
qed

lemma wrap_scan_tooltip:
  "wrap_scan w a P (TOOLTIP @ X) = TOOLTIP @ wrap_scan w a (P @ TOOLTIP) X"
proof -
  have "wrap_scan w a P (TOOLTIP @ X) = BSL # wrap_scan w a (P @ [BSL]) (''pdftooltip{'' @ X)"
    using INCL_RE_tooltip [of X] by (simp add: TOOLTIP_def)
  also have "wrap_scan w a (P @ [BSL]) (''pdftooltip{'' @ X) =
               ''pdftooltip{'' @ wrap_scan w a ((P @ [BSL]) @ ''pdftooltip{'') X"
    by (rule wrap_scan_copy) simp
  finally show ?thesis by (simp add: TOOLTIP_def)
qed

lemma not_prefix_skip:
  assumes "\<not> sublist tok L" and "L \<noteq> []" and "last L \<notin> set (butlast tok)"
  shows "\<not> prefix tok (L @ X)"
proof
  assume p: "prefix tok (L @ X)"
  have "\<not> prefix tok L" using assms(1) by (auto dest: prefix_imp_sublist)
  from prefix_straddle [OF assms(2) p this] assms(3) show False by simp
qed

lemma INCL_RE_NoneI: "\<not> prefix INCLUDE x \<Longrightarrow> INCL_RE x = None"
  by (simp add: INCL_RE_def lit_def INCLUDE_def)

lemma wrap_scan_skip:
  "\<not> sublist INCLUDE L \<Longrightarrow> L \<noteq> [] \<Longrightarrow> last L = CHR ''}'' \<Longrightarrow>
   wrap_scan w a pre (L @ s) = L @ wrap_scan w a (pre @ L) s"
proof (induction L arbitrary: pre)
  case Nil
  then show ?case by simp
next
  case (Cons c L)
  have "last (c # L) \<notin> set (butlast INCLUDE)"
    unfolding Cons.prems(3) by (simp add: INCLUDE_def)
  then have "\<not> prefix INCLUDE ((c # L) @ s)"
    by (rule not_prefix_skip [OF Cons.prems(1,2)])
  then have n: "INCL_RE (c # L @ s) = None" by (simp add: INCL_RE_NoneI)
  have step: "wrap_scan w a pre ((c # L) @ s) = c # wrap_scan w a (pre @ [c]) (L @ s)"
    using n by simp
  show ?case
  proof (cases "L = []")
    case True
    show ?thesis unfolding step unfolding True by simp
  next
    case False
    from Cons.prems(1) have "\<not> sublist INCLUDE L" by (simp add: sublist_Cons_right)
    moreover from Cons.prems(3) False have "last L = CHR ''}''" by simp
    ultimately have "wrap_scan w a (pre @ [c]) (L @ s) = L @ wrap_scan w a ((pre @ [c]) @ L) s"
      using False by (intro Cons.IH)
    then show ?thesis unfolding step by simp
  qed
qed

lemma sublist_snocD:
  assumes "sublist tok (x @ [c])" and "c \<notin> set tok"
  shows "sublist tok x"
proof -
  from assms(1) obtain ps ss where e: "x @ [c] = ps @ tok @ ss" by (auto simp: sublist_def)
  show ?thesis
  proof (cases ss rule: rev_cases)
    case Nil
    show ?thesis
    proof (cases tok rule: rev_cases)
      case Nil
      then show ?thesis by simp
    next
      case (snoc t y)
      with e \<open>ss = []\<close> have "y = c" by simp
      with snoc assms(2) show ?thesis by simp
    qed
  next
    case (snoc ss' y)
    with e have "x = ps @ tok @ ss'" by simp
    then show ?thesis by (rule sublist_witness)
  qed
qed

lemma wrap_scan_skip_alt:
  assumes "\<not> contains INCLUDE alt"
  shows "wrap_scan w a pre ((''}{'' @ alt @ ''}'') @ s) =
           (''}{'' @ alt @ ''}'') @ wrap_scan w a (pre @ ''}{'' @ alt @ ''}'') s"
proof (rule wrap_scan_skip)
  have "\<not> sublist INCLUDE (alt @ ''}'')"
    using assms sublist_snocD [of INCLUDE alt "CHR ''}''"]
    by (auto simp: contains_sublist INCLUDE_def)
  then show "\<not> sublist INCLUDE (''}{'' @ alt @ ''}'')"
    by (simp add: sublist_Cons_right INCLUDE_def)
qed simp_all

lemma wrap_scan_idem:
  assumes alt: "alt_keeps a"
    and w_pre: "\<And>pre c s. w (pre @ c # s) (length pre) = wp pre"
    and w_new: "\<And>P. wp (P @ TOOLTIP)"
    and w_step: "\<And>pre P opts fname u.
        valid_opts opts \<Longrightarrow> valid_fname fname \<Longrightarrow> tame opts fname \<Longrightarrow> plain_alt (a fname) \<Longrightarrow>
        \<not> wp pre \<Longrightarrow>
        wp (pre @ directive opts fname @ u) \<Longrightarrow> wp (P @ wrapper opts fname (a fname) @ u)"
  shows "list_all (\<lambda>(opts, fname). tame opts fname \<and> plain_alt (a fname)) (directives s) \<Longrightarrow>
         (\<And>u. wp (pre @ u) \<Longrightarrow> wp (P @ u)) \<Longrightarrow>
         wrap_scan w a P (wrap_scan w a pre s) = wrap_scan w a pre s"
proof (induction "length s" arbitrary: s pre P rule: less_induct)
  case less
  show ?case
  proof (cases s)
    case Nil
    then show ?thesis by simp
  next
    case (Cons c s')
    show ?thesis
    proof (cases "INCL_RE (c # s')")
      case None
      let ?T = "wrap_scan w a (pre @ [c]) s'"
      have "wrap_scan w a (P @ [c]) ?T = ?T"
      proof (rule less.hyps)
        show "length s' < length s" using Cons by simp
        show "list_all (\<lambda>(opts, fname). tame opts fname \<and> plain_alt (a fname)) (directives s')"
          using less.prems(1) Cons None by simp
        fix u assume "wp ((pre @ [c]) @ u)"
        then show "wp ((P @ [c]) @ u)" using less.prems(2) [of "c # u"] by simp
      qed
      with no_new_match [OF alt None, of w "pre @ [c]"] None Cons show ?thesis by simp
    next
      case (Some m)
      obtain opts fname r where m: "m = (opts, fname, r)" by (cases m)
      note S = Some [unfolded m]
      from INCL_RE_SomeD [OF S] have vo: "valid_opts opts" and vf: "valid_fname fname"
        and cs: "c # s' = directive opts fname @ r" by simp_all
      let ?d = "directive opts fname"
      let ?T = "wrap_scan w a (pre @ ?d) r"
      from less.prems(1) Cons S have tm: "tame opts fname" and pa: "plain_alt (a fname)"
        and tr: "list_all (\<lambda>(opts, fname). tame opts fname \<and> plain_alt (a fname)) (directives r)"
        by simp_all
      have lr: "length r < length s" using INCL_RE_length [OF S] Cons by simp
      have wpre: "w (pre @ c # s') (length pre) = wp pre" by (rule w_pre)
      have out: "wrap_scan w a pre s = (if wp pre then ?d else wrapper opts fname (a fname)) @ ?T"
        using S Cons wpre by simp
      have wd: "w (Q @ ?d @ X) (length Q) = wp Q" for Q X
        using w_pre [of Q BSL "''includegraphics'' @ opts @ ''{'' @ fname @ ''}'' @ X"]
        by (simp add: directive_def)
      show ?thesis
      proof (cases "wp pre")
        case True
        have "wrap_scan w a (P @ ?d) ?T = ?T"
        proof (rule less.hyps [OF lr tr])
          fix u assume "wp ((pre @ ?d) @ u)"
          then show "wp ((P @ ?d) @ u)" using less.prems(2) [of "?d @ u"] by simp
        qed
        moreover have "wp P" using less.prems(2) [of "[]"] True by simp
        ultimately show ?thesis
          using out True wrap_scan_directive [OF vo vf, of w a P ?T] wd [of P ?T] by simp
      next
        case False
        let ?alt = "a fname"
        let ?Y = "''}{'' @ ?alt @ ''}''"
        let ?W = "wrapper opts fname ?alt"
        from pa have nb: "\<not> contains INCLUDE ?alt" by (simp add: plain_alt_def)
        have ih: "wrap_scan w a (P @ ?W) ?T = ?T"
        proof (rule less.hyps [OF lr tr])
          fix u assume "wp ((pre @ ?d) @ u)"
          then have "wp (pre @ ?d @ u)" by simp
          from w_step [OF vo vf tm pa False this, of P] show "wp ((P @ ?W) @ u)" by simp
        qed
        have W: "?W @ ?T = TOOLTIP @ (?d @ (?Y @ ?T))" by (simp add: wrapper_def)
        have "wrap_scan w a P (?W @ ?T) = TOOLTIP @ wrap_scan w a (P @ TOOLTIP) (?d @ (?Y @ ?T))"
          unfolding W by (rule wrap_scan_tooltip)
        also have "wrap_scan w a (P @ TOOLTIP) (?d @ (?Y @ ?T)) =
                     ?d @ wrap_scan w a ((P @ TOOLTIP) @ ?d) (?Y @ ?T)"
          using wrap_scan_directive [OF vo vf, of w a "P @ TOOLTIP" "?Y @ ?T"]
            wd [of "P @ TOOLTIP" "?Y @ ?T"] w_new [of P] by simp
        also have "wrap_scan w a ((P @ TOOLTIP) @ ?d) (?Y @ ?T) =
                     ?Y @ wrap_scan w a (((P @ TOOLTIP) @ ?d) @ ?Y) ?T"
          using wrap_scan_skip_alt [OF nb, of w a "(P @ TOOLTIP) @ ?d" ?T] by simp
        also have "((P @ TOOLTIP) @ ?d) @ ?Y = P @ ?W" by (simp add: wrapper_def)
        finally have "wrap_scan w a P (?W @ ?T) = TOOLTIP @ ?d @ ?Y @ ?T"
          using ih by simp
        with out False W show ?thesis by simp
      qed
    qed
  qed
qed

lemma wrap_images_tex_idem:
  assumes "list_all (\<lambda>(opts, fname). tame opts fname \<and> plain_alt (alt_tex fname)) (directives S)"
  shows "wrap_images_tex (wrap_images_tex S) = wrap_images_tex S"
  unfolding wrap_images_tex_def
proof (rule wrap_scan_idem [where wp = wp_tex, OF alt_keeps_tex _ _ _ assms])
  show "is_already_wrapped (pre @ c # s) (length pre) = wp_tex pre" for pre c s
    by (rule is_already_wrapped_pre)
  show "wp_tex (P @ TOOLTIP)" for P by (rule wp_tex_new)
  show "wp_tex (P @ wrapper opts fname (alt_tex fname) @ u)"
    if "valid_opts opts" "valid_fname fname" "tame opts fname" "plain_alt (alt_tex fname)"
      "\<not> wp_tex pre" "wp_tex (pre @ directive opts fname @ u)" for pre P opts fname u
  proof (rule wp_tex_step [OF that(1) that(3) _ _ that(5) that(6)])
    show "\<not> contains TOOLTIP (alt_tex fname)"
      using that(4) by (simp add: plain_alt_def)
    show "CHR ''}'' \<notin> set (alt_tex fname)"
      using that(2) alt_keepsD [OF alt_keeps_tex special_rbrace] by (simp add: valid_fname_def)
  qed
qed simp

lemma wrap_images_shn_idem:
  assumes "list_all (\<lambda>(opts, fname). tame opts fname \<and> plain_alt (alt_shn fname)) (directives S)"
  shows "wrap_images_shn (wrap_images_shn S) = wrap_images_shn S"
  unfolding wrap_images_shn_def
proof (rule wrap_scan_idem [where wp = wp_shn, OF alt_keeps_shn _ _ _ assms])
  show "inside_tooltip (pre @ c # s) (length pre) = wp_shn pre" for pre c s
    by (rule inside_tooltip_pre)
  show "wp_shn (P @ TOOLTIP)" for P by (rule wp_shn_new)
  show "wp_shn (P @ wrapper opts fname (alt_shn fname) @ u)"
    if "valid_opts opts" "valid_fname fname" "tame opts fname" "plain_alt (alt_shn fname)"
      "\<not> wp_shn pre" "wp_shn (pre @ directive opts fname @ u)" for pre P opts fname u
  proof (rule wp_shn_step [OF that(1) that(3) _ that(5) that(6)])
    show "\<not> contains TOOLTIP (alt_shn fname)"
      using that(4) by (simp add: plain_alt_def)
  qed
qed simp

lemma tooltip_pat_wrapper:
  assumes vo: "valid_opts opts" and vf: "valid_fname fname" and va: "valid_fname alt"
  shows "tooltip_pat (wrapper opts fname alt @ X) = Some (fname, alt, X)"
proof -
  let ?k = "\<lambda>s2. case braced s2 of None \<Rightarrow> None
              | Some (fname, r1) \<Rightarrow>
                  (case lit ''}'' r1 of None \<Rightarrow> None
                   | Some r2 \<Rightarrow> (case braced r2 of None \<Rightarrow> None
                                 | Some (alt, r3) \<Rightarrow> Some (fname, alt, r3)))"
  let ?rest = "''{'' @ fname @ ''}'' @ (''}'' @ (''{'' @ alt @ ''}'' @ X))"
  have k: "?k ?rest = Some (fname, alt, X)"
    using braced_fname [OF vf, of "''}'' @ (''{'' @ alt @ ''}'' @ X)"] braced_fname [OF va, of X]
    by (simp add: lit_def)
  have o: "optional_then bracket_group ?k (opts @ ?rest) = Some (opts, fname, alt, X)"
  proof (cases "opts = []")
    case True
    then show ?thesis using k by (simp add: optional_then_def bracket_group_def)
  next
    case False
    with vo obtain u where u: "opts = CHR ''['' # u @ '']''" "CHR '']'' \<notin> set u"
      by (auto simp: valid_opts_def)
    from bracket_group_opts [OF u(2), of ?rest] k show ?thesis
      by (simp add: optional_then_def u)
  qed
  have w: "wrapper opts fname alt @ X = (TOOLTIP @ BSL # ''includegraphics'') @ (opts @ ?rest)"
    by (simp add: wrapper_def directive_def)
  have "tooltip_pat ((TOOLTIP @ BSL # ''includegraphics'') @ (opts @ ?rest)) =
          map_option snd (optional_then bracket_group ?k (opts @ ?rest))"
    unfolding tooltip_pat_def by (simp only: lit_append option.case)
  with o show ?thesis unfolding w by simp
qed

lemma tooltip_pat_NoneI: "\<not> prefix TOOLTIP x \<Longrightarrow> tooltip_pat x = None"
  by (auto simp: tooltip_pat_def lit_def prefix_def split: option.splits if_splits)

lemma tooltip_matches_wrap_scan:
  assumes alt: "alt_keeps a" and ne: "\<And>f. a f \<noteq> []"
    and w_pre: "\<And>pre c s. w (pre @ c # s) (length pre) = wp pre"
    and wp_no: "\<And>pre. \<not> sublist TOOLTIP pre \<Longrightarrow> \<not> wp pre"
  shows "\<not> sublist TOOLTIP (pre @ s) \<Longrightarrow>
         tooltip_matches (wrap_scan w a pre s) = map (\<lambda>(opts, fname). (fname, a fname)) (directives s)"
proof (induction "length s" arbitrary: s pre rule: less_induct)
  case less
  show ?case
  proof (cases s)
    case Nil
    then show ?thesis by simp
  next
    case (Cons c s')
    have np: "\<not> prefix TOOLTIP (c # s')"
    proof
      assume "prefix TOOLTIP (c # s')"
      then obtain r where "c # s' = TOOLTIP @ r" by (auto simp: prefix_def)
      then have "pre @ s = pre @ TOOLTIP @ r" using Cons by simp
      then have "sublist TOOLTIP (pre @ s)" by (rule sublist_witness)
      with less.prems show False by contradiction
    qed
    have npre: "\<not> wp pre"
    proof (rule wp_no)
      show "\<not> sublist TOOLTIP pre"
      proof
        assume "sublist TOOLTIP pre"
        then obtain ps ss where "pre = ps @ TOOLTIP @ ss" by (auto simp: sublist_def)
        then have "pre @ s = ps @ TOOLTIP @ (ss @ s)" by simp
        then have "sublist TOOLTIP (pre @ s)" by (rule sublist_witness)
        with less.prems show False by contradiction
      qed
    qed
    show ?thesis
    proof (cases "INCL_RE (c # s')")
      case None
      let ?T = "wrap_scan w a (pre @ [c]) s'"
      have "\<not> prefix TOOLTIP (c # ?T)"
      proof
        assume p: "prefix TOOLTIP (c # ?T)"
        then have c: "c = BSL" and q: "prefix ''pdftooltip{'' ?T" by (simp_all add: TOOLTIP_def)
        have "prefix ''pdftooltip{'' s'"
          by (rule wrap_scan_prefix_plain [OF _ q]) simp
        with c np show False by (simp add: TOOLTIP_def)
      qed
      then have "tooltip_pat (c # ?T) = None" by (rule tooltip_pat_NoneI)
      then have tm: "tooltip_matches (c # ?T) = tooltip_matches ?T" by simp
      have ih: "tooltip_matches ?T = map (\<lambda>(opts, fname). (fname, a fname)) (directives s')"
      proof (rule less.hyps)
        show "length s' < length s" using Cons by simp
        have e: "(pre @ [c]) @ s' = pre @ s" using Cons by simp
        show "\<not> sublist TOOLTIP ((pre @ [c]) @ s')" unfolding e by (rule less.prems)
      qed
      have out: "wrap_scan w a pre s = c # ?T" using None Cons by simp
      have ds: "directives s = directives s'" using None Cons by simp
      show ?thesis unfolding out ds tm ih ..
    next
      case (Some m)
      obtain opts fname r where m: "m = (opts, fname, r)" by (cases m)
      note S = Some [unfolded m]
      from INCL_RE_SomeD [OF S] have vo: "valid_opts opts" and vf: "valid_fname fname"
        and cs: "c # s' = directive opts fname @ r" by simp_all
      let ?d = "directive opts fname"
      let ?T = "wrap_scan w a (pre @ ?d) r"
      have va: "valid_fname (a fname)"
        using ne [of fname] vf alt_keepsD [OF alt special_rbrace] by (simp add: valid_fname_def)
      have out: "wrap_scan w a pre s = wrapper opts fname (a fname) @ ?T"
        using S Cons npre w_pre [of pre c s'] by simp
      have ih: "tooltip_matches ?T = map (\<lambda>(opts, fname). (fname, a fname)) (directives r)"
      proof (rule less.hyps)
        show "length r < length s" using INCL_RE_length [OF S] Cons by simp
        have e: "(pre @ ?d) @ r = pre @ s" using Cons cs by simp
        show "\<not> sublist TOOLTIP ((pre @ ?d) @ r)" unfolding e by (rule less.prems)
      qed
      obtain Z where Z: "wrapper opts fname (a fname) @ ?T = BSL # Z"
        by (simp add: wrapper_Cons)
      have "tooltip_pat (BSL # Z) = Some (fname, a fname, ?T)"
        using tooltip_pat_wrapper [OF vo vf va, of ?T] unfolding Z .
      then have tm: "tooltip_matches (wrapper opts fname (a fname) @ ?T) =
                       (fname, a fname) # tooltip_matches ?T"
        unfolding Z by simp
      have ds: "directives s = (opts, fname) # directives r" using S Cons by simp
      show ?thesis unfolding out ds tm ih by simp
    qed
  qed
qed

lemma strip_id:
  assumes "s \<noteq> []" and "\<not> is_space (hd s)" and "\<not> is_space (last s)"
  shows "strip s = s"
proof -
  from assms(1,2) have 1: "dropWhile is_space s = s" by (cases s) auto
  from assms(1,3) have 2: "dropWhile is_space (rev s) = rev s"
    by (cases "rev s") (auto simp: hd_rev)
  show ?thesis by (simp add: strip_def 1 2)
qed

lemma strip_last: "strip s \<noteq> [] \<Longrightarrow> \<not> is_space (last (strip s))"
proof -
  let ?z = "dropWhile is_space (rev (dropWhile is_space s))"
  assume "strip s \<noteq> []"
  then have z: "?z \<noteq> []" by (simp add: strip_def)
  then have "\<not> is_space (hd ?z)" by (rule hd_dropWhile)
  moreover have "last (strip s) = hd ?z" using z by (simp add: strip_def last_rev)
  ultimately show ?thesis by simp
qed

lemma unescape_hashes_plain: "BSL \<notin> set s \<Longrightarrow> unescape_hashes s = s"
  by (induction s rule: unescape_hashes.induct) auto

lemma known_tex_last: "known_tex n = Some d \<Longrightarrow> d \<noteq> [] \<and> \<not> is_space (last d)"
  unfolding known_tex_def
  by (simp split: if_splits; fastforce simp: is_space_def)

lemma known_shn_last: "known_shn n = Some d \<Longrightarrow> d \<noteq> [] \<and> \<not> is_space (last d)"
  unfolding known_shn_def
  by (simp split: if_splits; fastforce simp: is_space_def)

lemma guess_alt_tex_last: "guess_alt_tex f \<noteq> [] \<and> \<not> is_space (last (guess_alt_tex f))"
proof (cases "known_tex (lower (path_stem f))")
  case (Some d)
  with known_tex_last [OF Some] show ?thesis by (simp add: guess_alt_tex_def)
next
  case None
  let ?r = "strip (strip_long_numbers
              (map (\<lambda>c. if c = CHR ''-'' \<or> c = CHR ''_'' then CHR '' '' else c) (lower (path_stem f))))"
  show ?thesis
  proof (cases "?r = []")
    case True
    with None show ?thesis by (simp add: guess_alt_tex_def Let_def is_space_def)
  next
    case False
    with None strip_last [OF False] show ?thesis by (simp add: guess_alt_tex_def Let_def)
  qed
qed

lemma guess_alt_shn_last: "guess_alt_shn f \<noteq> [] \<and> \<not> is_space (last (guess_alt_shn f))"
proof (cases "known_shn (lower (path_stem f))")
  case (Some d)
  with known_shn_last [OF Some] show ?thesis by (simp add: guess_alt_shn_def)
next
  case None
  then show ?thesis
    by (simp add: guess_alt_shn_def Let_def is_space_def split: list.splits)
qed

lemma strip_alt_tex: "strip (alt_tex f) = alt_tex f"
proof (rule strip_id)
  show "alt_tex f \<noteq> []" by (simp add: alt_tex_def ALT_MARKER_tex_def)
  show "\<not> is_space (hd (alt_tex f))" by (simp add: alt_tex_def ALT_MARKER_tex_def is_space_def)
  show "\<not> is_space (last (alt_tex f))" using guess_alt_tex_last [of f] by (simp add: alt_tex_def)
qed

lemma strip_alt_shn: "strip (alt_shn f) = alt_shn f"
proof (rule strip_id)
  show "alt_shn f \<noteq> []" by (simp add: alt_shn_def ALT_MARKER_shn_def)
  show "\<not> is_space (hd (alt_shn f))" by (simp add: alt_shn_def ALT_MARKER_shn_def is_space_def)
  show "\<not> is_space (last (alt_shn f))" using guess_alt_shn_last [of f] by (simp add: alt_shn_def)
qed

lemma wp_tex_none: "\<not> sublist TOOLTIP pre \<Longrightarrow> \<not> wp_tex pre"
  by (simp add: wp_tex_def last_from_None_iff [symmetric])

lemma wp_shn_none: "\<not> sublist TOOLTIP pre \<Longrightarrow> \<not> wp_shn pre"
  by (simp add: wp_shn_def last_from_None_iff [symmetric])

lemma tooltip_matches_tex:
  assumes "\<not> contains TOOLTIP S"
  shows "tooltip_matches (wrap_images_tex S) = map (\<lambda>(opts, fname). (fname, alt_tex fname)) (directives S)"
  unfolding wrap_images_tex_def
proof (rule tooltip_matches_wrap_scan [where wp = wp_tex and pre = "[]", OF alt_keeps_tex])
  show "alt_tex f \<noteq> []" for f by (simp add: alt_tex_def ALT_MARKER_tex_def)
  show "is_already_wrapped (pre @ c # s) (length pre) = wp_tex pre" for pre c s
    by (rule is_already_wrapped_pre)
  show "\<not> sublist TOOLTIP pre \<Longrightarrow> \<not> wp_tex pre" for pre by (rule wp_tex_none)
  show "\<not> sublist TOOLTIP ([] @ S)" using assms by (simp add: contains_sublist)
qed

lemma tooltip_matches_shn:
  assumes "\<not> contains TOOLTIP S"
  shows "tooltip_matches (wrap_images_shn S) = map (\<lambda>(opts, fname). (fname, alt_shn fname)) (directives S)"
  unfolding wrap_images_shn_def
proof (rule tooltip_matches_wrap_scan [where wp = wp_shn and pre = "[]", OF alt_keeps_shn])
  show "alt_shn f \<noteq> []" for f by (simp add: alt_shn_def ALT_MARKER_shn_def)
  show "inside_tooltip (pre @ c # s) (length pre) = wp_shn pre" for pre c s
    by (rule inside_tooltip_pre)
  show "\<not> sublist TOOLTIP pre \<Longrightarrow> \<not> wp_shn pre" for pre by (rule wp_shn_none)
  show "\<not> sublist TOOLTIP ([] @ S)" using assms by (simp add: contains_sublist)
qed

subsection \<open>Idempotence of \<open>wrap_images\<close>\<close>

text \<open>
  C2 (image-wrap idempotence), as the claim states it, fails. Four samples, each with
  one irregularity:
  \<^item> a file name that holds a wrapper token, a brace and a directory. On the first run
    the second directive counts as wrapped (the token in the file name is the nearest
    one, and its brace is still open). The first directive gets its wrapper, and after
    the two closing braces of the new wrapper the second directive no longer counts as
    wrapped: the second run wraps it. Both scripts.
  \<^item> options that hold a wrapper token: the same course. Both scripts.
  \<^item> a file name that reads as the beginning of a directive, after options that close
    braces: the guess repeats the file name, so the alternative text of the new
    wrapper holds a directive, and the second run wraps that one. Both scripts.
  \<^item> a file name that holds the wrapper token in capitals: make_accessible_tex.py puts
    the name in lower case into the guess, so the alternative text holds a wrapper
    token, from which the second run counts the braces.
\<close>

theorem C2_counterexample:
  "wrap_images_tex (wrap_images_tex doc_tooltip_in_name) \<noteq> wrap_images_tex doc_tooltip_in_name \<and>
   wrap_images_shn (wrap_images_shn doc_tooltip_in_name) \<noteq> wrap_images_shn doc_tooltip_in_name \<and>
   wrap_images_tex (wrap_images_tex doc_tooltip_in_options) \<noteq> wrap_images_tex doc_tooltip_in_options \<and>
   wrap_images_shn (wrap_images_shn doc_tooltip_in_options) \<noteq> wrap_images_shn doc_tooltip_in_options \<and>
   wrap_images_tex (wrap_images_tex doc_directive_in_name) \<noteq> wrap_images_tex doc_directive_in_name \<and>
   wrap_images_shn (wrap_images_shn doc_directive_in_name) \<noteq> wrap_images_shn doc_directive_in_name \<and>
   wrap_images_tex (wrap_images_tex doc_capital_tooltip) \<noteq> wrap_images_tex doc_capital_tooltip"
proof -
  have a: "wrap_images_tex (wrap_images_tex doc_tooltip_in_name) \<noteq> wrap_images_tex doc_tooltip_in_name"
    by code_simp
  have b: "wrap_images_shn (wrap_images_shn doc_tooltip_in_name) \<noteq> wrap_images_shn doc_tooltip_in_name"
    by code_simp
  have c: "wrap_images_tex (wrap_images_tex doc_tooltip_in_options) \<noteq> wrap_images_tex doc_tooltip_in_options"
    by code_simp
  have d: "wrap_images_shn (wrap_images_shn doc_tooltip_in_options) \<noteq> wrap_images_shn doc_tooltip_in_options"
    by code_simp
  have e: "wrap_images_tex (wrap_images_tex doc_directive_in_name) \<noteq> wrap_images_tex doc_directive_in_name"
    by code_simp
  have f: "wrap_images_shn (wrap_images_shn doc_directive_in_name) \<noteq> wrap_images_shn doc_directive_in_name"
    by code_simp
  have g: "wrap_images_tex (wrap_images_tex doc_capital_tooltip) \<noteq> wrap_images_tex doc_capital_tooltip"
    by code_simp
  show ?thesis by (intro conjI a b c d e f g)
qed

text \<open>
  C2, amended. Let no directive of \<open>S\<close> hold the wrapper token \<open>\pdftooltip{\<close> in its
  options or in its file name. Then each script returns on its own output that same
  output, provided the alternative texts it makes for the file names of \<open>S\<close> hold
  neither the wrapper token nor \<open>\includegraphics\<close>. Nothing else is asked: file names
  and options may hold backslashes, commands and unbalanced braces, and the text around
  the directives is arbitrary (wrappers written by hand, directives inside other braces,
  incomplete directives).
\<close>

theorem C2_wrap_images_idempotent:
  assumes "list_all (\<lambda>(opts, fname). \<not> contains TOOLTIP opts \<and> \<not> contains TOOLTIP fname)
             (directives S)"
  shows "(list_all (\<lambda>(opts, fname). \<not> contains TOOLTIP (alt_tex fname) \<and>
                                     \<not> contains INCLUDE (alt_tex fname)) (directives S) \<longrightarrow>
          wrap_images_tex (wrap_images_tex S) = wrap_images_tex S) \<and>
         (list_all (\<lambda>(opts, fname). \<not> contains TOOLTIP (alt_shn fname) \<and>
                                     \<not> contains INCLUDE (alt_shn fname)) (directives S) \<longrightarrow>
          wrap_images_shn (wrap_images_shn S) = wrap_images_shn S)"
proof (intro conjI impI)
  assume "list_all (\<lambda>(opts, fname). \<not> contains TOOLTIP (alt_tex fname) \<and>
                                     \<not> contains INCLUDE (alt_tex fname)) (directives S)"
  with assms
  have "list_all (\<lambda>(opts, fname). tame opts fname \<and> plain_alt (alt_tex fname)) (directives S)"
    by (auto simp: list_all_iff tame_def plain_alt_def)
  then show "wrap_images_tex (wrap_images_tex S) = wrap_images_tex S"
    by (rule wrap_images_tex_idem)
next
  assume "list_all (\<lambda>(opts, fname). \<not> contains TOOLTIP (alt_shn fname) \<and>
                                     \<not> contains INCLUDE (alt_shn fname)) (directives S)"
  with assms
  have "list_all (\<lambda>(opts, fname). tame opts fname \<and> plain_alt (alt_shn fname)) (directives S)"
    by (auto simp: list_all_iff tame_def plain_alt_def)
  then show "wrap_images_shn (wrap_images_shn S) = wrap_images_shn S"
    by (rule wrap_images_shn_idem)
qed

theorem C2_wrap_images_idempotent_witness:
  "directives doc_paths =
     [([], ''logo.png''),
      (''[width='' @ BSL # ''textwidth,trim={0 0 1cm 0}]'', BSL # ''figdir/a.png''),
      ([], ''hwio_figs'' @ BSL # ''fig1.png'')] \<and>
   list_all (\<lambda>(opts, fname). \<not> contains TOOLTIP opts \<and> \<not> contains TOOLTIP fname)
     (directives doc_paths) \<and>
   list_all (\<lambda>(opts, fname). \<not> contains TOOLTIP (alt_tex fname) \<and>
                              \<not> contains INCLUDE (alt_tex fname)) (directives doc_paths) \<and>
   list_all (\<lambda>(opts, fname). \<not> contains TOOLTIP (alt_shn fname) \<and>
                              \<not> contains INCLUDE (alt_shn fname)) (directives doc_paths) \<and>
   wrap_images_tex doc_paths \<noteq> doc_paths \<and>
   wrap_images_shn doc_paths \<noteq> doc_paths \<and>
   wrap_images_tex (wrap_images_tex doc_paths) = wrap_images_tex doc_paths \<and>
   wrap_images_shn (wrap_images_shn doc_paths) = wrap_images_shn doc_paths"
proof -
  have d: "directives doc_paths =
     [([], ''logo.png''),
      (''[width='' @ BSL # ''textwidth,trim={0 0 1cm 0}]'', BSL # ''figdir/a.png''),
      ([], ''hwio_figs'' @ BSL # ''fig1.png'')]"
    by code_simp
  have h: "list_all (\<lambda>(opts, fname). \<not> contains TOOLTIP opts \<and> \<not> contains TOOLTIP fname)
     (directives doc_paths)"
    by code_simp
  have t: "list_all (\<lambda>(opts, fname). \<not> contains TOOLTIP (alt_tex fname) \<and>
                              \<not> contains INCLUDE (alt_tex fname)) (directives doc_paths)"
    by code_simp
  have s: "list_all (\<lambda>(opts, fname). \<not> contains TOOLTIP (alt_shn fname) \<and>
                              \<not> contains INCLUDE (alt_shn fname)) (directives doc_paths)"
    by code_simp
  have n: "wrap_images_tex doc_paths \<noteq> doc_paths" by code_simp
  have m: "wrap_images_shn doc_paths \<noteq> doc_paths" by code_simp
  from C2_wrap_images_idempotent [OF h] t s
  have "wrap_images_tex (wrap_images_tex doc_paths) = wrap_images_tex doc_paths"
    and "wrap_images_shn (wrap_images_shn doc_paths) = wrap_images_shn doc_paths"
    by simp_all
  with d h t s n m show ?thesis by (intro conjI)
qed

subsection \<open>The alternative texts read back from the wrapped text\<close>

text \<open>
  Without a wrapper token in the text every directive is wrapped, and the map read back
  has, for each directive, the base name of the file and the marked guess.
\<close>

lemma alt_map_round_trip_no_wrapper:
  assumes "directives S = [(opts_a, fname_a), (opts_b, fname_b)]"
    and "\<not> contains TOOLTIP S"
    and "BSL \<notin> set fname_a" and "BSL \<notin> set fname_b"
  shows "extract_alt_map_tex (wrap_images_tex S) =
           [path_name fname_a \<mapsto> alt_tex fname_a, path_name fname_b \<mapsto> alt_tex fname_b] \<and>
         extract_alt_map_shn (wrap_images_shn S) =
           [path_name fname_a \<mapsto> alt_shn fname_a, path_name fname_b \<mapsto> alt_shn fname_b]"
proof -
  have "BSL \<notin> set (alt_shn fname_a)" "BSL \<notin> set (alt_shn fname_b)"
    using assms(3,4) alt_keepsD [OF alt_keeps_shn special_bsl] by simp_all
  then have u: "unescape_hashes (alt_shn fname_a) = alt_shn fname_a"
    "unescape_hashes (alt_shn fname_b) = alt_shn fname_b"
    by (simp_all add: unescape_hashes_plain)
  show ?thesis
    unfolding extract_alt_map_tex_def extract_alt_map_shn_def
      tooltip_matches_tex [OF assms(2)] tooltip_matches_shn [OF assms(2)] assms(1)
    by (simp add: strip_alt_tex strip_alt_shn u)
qed

text \<open>
  C7 (alt-map round trip). The sample holds a closed wrapper around text, then the
  directive for \<open>a.png\<close> inside \<open>\centerline{...}\<close> and the directive for \<open>b.png\<close>. Both
  directives are unwrapped: the only wrapper has closed before them, and the test of
  make_accessible.py says so. make_accessible_tex.py counts the braces from the wrapper
  token to the directive without stopping where the wrapper closes; the brace of
  \<open>\centerline\<close> makes the depth 1, the directive for \<open>a.png\<close> is copied unwrapped, and
  the map read back from the wrapped text has no entry for \<open>a.png\<close>. make_accessible.py
  wraps both directives and reads back the two entries of the claim.
\<close>

theorem C7_tex_alt_map_misses_entry:
  "directives doc_text_tooltip = [([], ''a.png''), ([], ''b.png'')] \<and>
   \<not> inside_tooltip doc_text_tooltip
       (length (BSL # ''pdftooltip{Fig. 1}{A tip}'' @ [NL] @ BSL # ''centerline{'')) \<and>
   is_already_wrapped doc_text_tooltip
       (length (BSL # ''pdftooltip{Fig. 1}{A tip}'' @ [NL] @ BSL # ''centerline{'')) \<and>
   wrap_images_tex doc_text_tooltip =
     BSL # ''pdftooltip{Fig. 1}{A tip}'' @ [NL] @
     BSL # ''centerline{'' @ directive [] ''a.png'' @ ''}'' @ [NL] @
     wrapper [] ''b.png'' (alt_tex ''b.png'') \<and>
   extract_alt_map_tex (wrap_images_tex doc_text_tooltip) = [''b.png'' \<mapsto> alt_tex ''b.png''] \<and>
   extract_alt_map_tex (wrap_images_tex doc_text_tooltip) ''a.png'' = None \<and>
   extract_alt_map_shn (wrap_images_shn doc_text_tooltip) =
     [''a.png'' \<mapsto> alt_shn ''a.png'', ''b.png'' \<mapsto> alt_shn ''b.png'']"
proof -
  have d: "directives doc_text_tooltip = [([], ''a.png''), ([], ''b.png'')]"
    by code_simp
  have i: "\<not> inside_tooltip doc_text_tooltip
       (length (BSL # ''pdftooltip{Fig. 1}{A tip}'' @ [NL] @ BSL # ''centerline{''))"
    by code_simp
  have w: "is_already_wrapped doc_text_tooltip
       (length (BSL # ''pdftooltip{Fig. 1}{A tip}'' @ [NL] @ BSL # ''centerline{''))"
    by code_simp
  have t: "wrap_images_tex doc_text_tooltip =
     BSL # ''pdftooltip{Fig. 1}{A tip}'' @ [NL] @
     BSL # ''centerline{'' @ directive [] ''a.png'' @ ''}'' @ [NL] @
     wrapper [] ''b.png'' (alt_tex ''b.png'')"
    by code_simp
  have mt: "tooltip_matches (wrap_images_tex doc_text_tooltip) = [(''b.png'', alt_tex ''b.png'')]"
    by code_simp
  have ms: "tooltip_matches (wrap_images_shn doc_text_tooltip) =
              [(''a.png'', alt_shn ''a.png''), (''b.png'', alt_shn ''b.png'')]"
    by code_simp
  have p: "path_name ''a.png'' = ''a.png''" "path_name ''b.png'' = ''b.png''"
    by code_simp+
  have u: "unescape_hashes (alt_shn ''a.png'') = alt_shn ''a.png''"
    "unescape_hashes (alt_shn ''b.png'') = alt_shn ''b.png''"
    by code_simp+
  have et: "extract_alt_map_tex (wrap_images_tex doc_text_tooltip) = [''b.png'' \<mapsto> alt_tex ''b.png'']"
    unfolding extract_alt_map_tex_def mt by (simp add: p strip_alt_tex)
  have en: "extract_alt_map_tex (wrap_images_tex doc_text_tooltip) ''a.png'' = None"
    unfolding et by simp
  have es: "extract_alt_map_shn (wrap_images_shn doc_text_tooltip) =
     [''a.png'' \<mapsto> alt_shn ''a.png'', ''b.png'' \<mapsto> alt_shn ''b.png'']"
    unfolding extract_alt_map_shn_def ms by (simp add: p u strip_alt_shn)
  show ?thesis by (intro conjI d i w t et en es)
qed

subsection \<open>The directives of the wrapped text\<close>

text \<open>
  The claim compares the directives of the wrapped text with those of the source
  ``ignoring wrapper syntax''. The scripts have their own way of ignoring it: the
  unwrapping step of \<open>preprocess_for_pandoc\<close>, which puts the directive in place of each
  wrapper. Its template is accepted by the template parser.
\<close>

lemma unwrap_template: "parse_template 1 (BSL # ''1'') = Inr [TGroup 1]"
  by code_simp


























end
